theory Spec2Isabelle
  imports Complex_Main
begin

section \<open>Data model (common/interfaces)\<close>

text \<open>
  The dialog graph of the editor: nodes carry prompts, edges carry traversal rules,
  conditions on the world state and mutations of it. Optional fields of the TypeScript
  interfaces are options (\<open>None\<close> is \<open>undefined\<close>), enums are datatypes, JavaScript
  numbers are reals where they are scores or coordinates and integers where they count.
  The rendering layout of an edge (\<open>EdgeLayout\<close>) is read by none of the functions
  below and is left out.
\<close>

type_synonym NodeID = string

text \<open>A layout coordinate \<open>fx?: number|null\<close>: absent, null or a number.\<close>

datatype coord = Undefined | Null | Num real

record Node =
  id_node :: NodeID
  title :: string
  prompt :: string
  retryPrompt :: string
  autoAdvance :: "bool option"
  fx :: coord
  fy :: coord

datatype MutationType = ADD | REMOVE

datatype ConditionType = REQUIRE | FORBID

record Condition =
  conditionType :: ConditionType
  key_c :: string
  value_c :: string

record Mutation =
  mutationType :: MutationType
  key_m :: string
  value_m :: string

record MatchCandidate =
  text_of :: string
  antiExample :: "bool option"

record SemanticMatchRule =
  matchCandidates :: "MatchCandidate list"

record RepeatedFailRule =
  failMessage :: "string option"
  failCount :: int

text \<open>
  An \<open>EdgeRule\<close> is the pair of a type tag and the data of that type; the two tags of
  \<open>EdgeRuleType\<close> are the two constructors.
\<close>

datatype EdgeRule = SEMANTIC_MATCH SemanticMatchRule | REPEATED_FAIL RepeatedFailRule

record Edge =
  source :: Node
  target :: Node
  rules :: "EdgeRule list"
  conditions :: "Condition list option"
  mutations :: "Mutation list option"

record Graph =
  id_graph :: string
  contentId :: "string option"
  name_graph :: string
  start :: NodeID
  nodes :: "Node list"
  edges :: "Edge list"

text \<open>The world state, a \<open>Map<string, string>\<close>.\<close>

type_synonym World = "string \<rightharpoonup> string"

section \<open>Graph queries (common/utils)\<close>

text \<open>
  The condition loop of \<open>getOutEdges\<close>: the first failing condition clears
  \<open>passedConditions\<close> and breaks. \<open>world.has(k)\<close> is \<open>w k \<noteq> None\<close> and
  \<open>world.get(k) === v\<close> is \<open>w k = Some v\<close>.
\<close>

fun conditionsPass :: "World \<Rightarrow> Condition list \<Rightarrow> bool" where
  "conditionsPass w [] = True"
| "conditionsPass w (c # cs) =
     (case conditionType c of
        REQUIRE \<Rightarrow>
          (if w (key_c c) = None \<or> w (key_c c) \<noteq> Some (value_c c) then False
           else conditionsPass w cs)
      | FORBID \<Rightarrow>
          (if w (key_c c) \<noteq> None \<or> w (key_c c) = Some (value_c c) then False
           else conditionsPass w cs))"

text \<open>The conditions are looked at only when both a world and a condition list are given.\<close>

definition passedConditions :: "World option \<Rightarrow> Edge \<Rightarrow> bool" where
  "passedConditions world e =
     (case world of
        None \<Rightarrow> True
      | Some w \<Rightarrow> (case conditions e of None \<Rightarrow> True | Some cs \<Rightarrow> conditionsPass w cs))"

definition getOutEdges :: "Node \<Rightarrow> Graph \<Rightarrow> World option \<Rightarrow> Edge list" where
  "getOutEdges node graph world =
     filter (\<lambda>e. id_node (source e) = id_node node \<and> passedConditions world e) (edges graph)"

definition getInEdges :: "Node \<Rightarrow> Graph \<Rightarrow> Edge list" where
  "getInEdges node graph = filter (\<lambda>e. id_node (target e) = id_node node) (edges graph)"

text \<open>\<open>isRepeatedFail\<close>: at least one rule, and every rule a repeated-fail rule.\<close>

fun isRepeatedFailFrom :: "bool \<Rightarrow> EdgeRule list \<Rightarrow> bool" where
  "isRepeatedFailFrom hasRepeatedFail [] = hasRepeatedFail"
| "isRepeatedFailFrom hasRepeatedFail (REPEATED_FAIL d # rs) = isRepeatedFailFrom True rs"
| "isRepeatedFailFrom hasRepeatedFail (SEMANTIC_MATCH d # rs) = False"

definition isRepeatedFail :: "Edge \<Rightarrow> bool" where
  "isRepeatedFail e = isRepeatedFailFrom False (rules e)"

definition getRepeatedFailEdges :: "Node \<Rightarrow> Graph \<Rightarrow> Edge list" where
  "getRepeatedFailEdges node graph = filter isRepeatedFail (getOutEdges node graph None)"

text \<open>
  \<open>getEdgeName\<close>: the first semantic-match rule of the edge (the loop breaks at it),
  then the text of its first candidate that is not an anti-example. The result is
  \<open>null\<close> (\<open>None\<close>) only when the edge has no semantic-match rule; otherwise
  \<open>firstPositiveExample || ''\<close>, where both \<open>null\<close> and the empty string are falsy.
\<close>

definition isAnti :: "MatchCandidate \<Rightarrow> bool" where
  "isAnti c = (antiExample c = Some True)"

fun firstSemanticRule :: "EdgeRule list \<Rightarrow> SemanticMatchRule option" where
  "firstSemanticRule [] = None"
| "firstSemanticRule (SEMANTIC_MATCH d # rs) = Some d"
| "firstSemanticRule (REPEATED_FAIL d # rs) = firstSemanticRule rs"

fun firstPositiveExample :: "MatchCandidate list \<Rightarrow> string option" where
  "firstPositiveExample [] = None"
| "firstPositiveExample (c # cs) =
     (if \<not> isAnti c then Some (text_of c) else firstPositiveExample cs)"

definition orEmpty :: "string option \<Rightarrow> string" where
  "orEmpty s = (case s of None \<Rightarrow> '''' | Some t \<Rightarrow> (if t = '''' then '''' else t))"

definition getEdgeName :: "Edge \<Rightarrow> string option" where
  "getEdgeName e =
     (case firstSemanticRule (rules e) of
        None \<Rightarrow> None
      | Some r \<Rightarrow> Some (orEmpty (firstPositiveExample (matchCandidates r))))"

section \<open>Inference (services/inference/semantic_inference_service)\<close>

text \<open>
  Every throw of the source is a value: the explicit not-ready error of \<open>evaluate\<close>,
  the \<open>TypeError\<close> of a property access on \<open>undefined\<close>, and the not-found error
  of the serialization service further down.
\<close>

datatype error = NotReady | TypeError | NodeNotFound

text \<open>
  The declarations of services/inference/interfaces (the source tree carries the file
  at the end of components/graph_editor/graph_editor.ts). \<open>SemanticMatchService\<close> is the
  base class of the scorers: an implementation answers whether it is ready, gives its
  threshold, and scores an utterance against a list of candidate texts (the promise
  of \<open>semanticSimilarity\<close> is the list it resolves to). The base class itself is never
  ready, has the threshold -1 and returns no score. \<open>InferenceState\<close>,
  \<open>ScoredCandidate\<close>, \<open>ScoredSemanticMatchRule\<close> and \<open>InferenceResult\<close> are the
  interfaces of the same file, field for field (\<open>rule_of\<close> and \<open>scoredCandidates_of\<close>
  are its \<open>rule\<close> and \<open>scoredCandidates\<close>). \<open>score\<close> is declared a number; the
  value stored in it is \<open>scores[i]\<close>, which is \<open>undefined\<close> past the end of the list that
  the scorer returned, so the field is an option and \<open>None\<close> is that \<open>undefined\<close>. A
  score is a real number: the not-a-number value of the source's number type is left
  out.
\<close>

record SemanticMatchService =
  ready :: bool
  getThreshold :: real
  semanticSimilarity :: "string \<Rightarrow> string list \<Rightarrow> real list"

definition baseService :: SemanticMatchService where
  "baseService = \<lparr>ready = False, getThreshold = -1, semanticSimilarity = (\<lambda>u cs. [])\<rparr>"

record ScoredCandidate =
  candidate :: MatchCandidate
  score :: "real option"
  topScore :: bool

record ScoredSemanticMatchRule =
  scoredCandidates_of :: "ScoredCandidate list"
  rule_of :: SemanticMatchRule
  chosen :: bool

record InferenceState =
  node :: Node
  attemptNumber :: int
  world :: "World option"

record InferenceResult =
  state :: InferenceState
  scoredSemanticMatchRules :: "ScoredSemanticMatchRule list"
  edge :: "Edge option"
  rule :: "EdgeRule option"

record SemanticMatchResult =
  maxScore :: "real option"
  scoredCandidates :: "ScoredCandidate list"

text \<open>\<open>xs[i]\<close> on a JavaScript array: \<open>undefined\<close> out of range.\<close>

definition jsIndex :: "'a list \<Rightarrow> int \<Rightarrow> 'a option" where
  "jsIndex xs i = (if 0 \<le> i \<and> nat i < length xs then Some (xs ! nat i) else None)"

text \<open>
  The candidate loop of \<open>checkSemanticMatchRule\<close>, over index \<open>i\<close> with the candidates
  from \<open>i\<close> on: it pushes the scored candidate and moves the running maximum on a
  strictly greater score. A missing score is \<open>undefined\<close>, and \<open>undefined > maxScore\<close>
  is false. The state is (scoredCandidates, maxIndex, maxScore, maxPositive), written
  \<open>(scored, mIndex, mScore, mPositive)\<close>.
\<close>

type_synonym CandidateScan = "ScoredCandidate list \<times> int \<times> real \<times> bool"

fun scoreLoop :: "MatchCandidate list \<Rightarrow> real list \<Rightarrow> nat \<Rightarrow> CandidateScan \<Rightarrow> CandidateScan" where
  "scoreLoop [] scores i st = st"
| "scoreLoop (c # cs) scores i (scored, mIndex, mScore, mPositive) =
     (let sc = jsIndex scores (int i);
          scored' = scored @ [\<lparr>candidate = c, score = sc, topScore = False\<rparr>]
      in case sc of
           None \<Rightarrow> scoreLoop cs scores (i + 1) (scored', mIndex, mScore, mPositive)
         | Some s \<Rightarrow>
             (if s > mScore then scoreLoop cs scores (i + 1) (scored', int i, s, \<not> isAnti c)
              else scoreLoop cs scores (i + 1) (scored', mIndex, mScore, mPositive)))"

text \<open>\<open>scoredCandidates[maxIndex].topScore = true\<close> throws when the element is undefined.\<close>

definition markTopScore :: "ScoredCandidate list \<Rightarrow> int \<Rightarrow> error + ScoredCandidate list" where
  "markTopScore scored maxIndex =
     (case jsIndex scored maxIndex of
        None \<Rightarrow> Inl TypeError
      | Some c \<Rightarrow> Inr (scored[nat maxIndex := c\<lparr>topScore := True\<rparr>]))"

definition checkSemanticMatchRule ::
  "SemanticMatchService \<Rightarrow> string \<Rightarrow> SemanticMatchRule \<Rightarrow> error + SemanticMatchResult" where
  "checkSemanticMatchRule sms utterance r =
     (if length (matchCandidates r) = 0 then Inr \<lparr>maxScore = None, scoredCandidates = []\<rparr>
      else
        let candidates = map text_of (matchCandidates r);
            scores = semanticSimilarity sms utterance candidates
        in case scoreLoop (matchCandidates r) scores 0 ([], -1, -1, False) of
             (scored, mIndex, mScore, mPositive) \<Rightarrow>
               (case markTopScore scored mIndex of
                  Inl err \<Rightarrow> Inl err
                | Inr scored' \<Rightarrow>
                    (if mPositive then Inr \<lparr>maxScore = Some mScore, scoredCandidates = scored'\<rparr>
                     else Inr \<lparr>maxScore = None, scoredCandidates = scored'\<rparr>)))"

text \<open>The variables of the scoring loops of \<open>evaluate\<close>.\<close>

record Scan =
  bestScore :: real
  bestEdge :: "Edge option"
  bestRule :: "EdgeRule option"
  bestSemanticMatchRuleIndex :: int
  scoredRules :: "ScoredSemanticMatchRule list"
  semanticMatchRuleIndex :: int

definition initScan :: Scan where
  "initScan = \<lparr>bestScore = 0, bestEdge = None, bestRule = None,
     bestSemanticMatchRuleIndex = 0, scoredRules = [], semanticMatchRuleIndex = -1\<rparr>"

text \<open>
  The body of the rule loop after the scorer has answered: count the rule, push its
  scored candidates, and take it as the best when \<open>topScore\<close> is truthy (neither
  \<open>null\<close> nor 0), above the threshold and above the best so far.
\<close>

definition recordRule ::
  "SemanticMatchService \<Rightarrow> Edge \<Rightarrow> SemanticMatchRule \<Rightarrow> SemanticMatchResult \<Rightarrow> Scan \<Rightarrow> Scan" where
  "recordRule sms e d res st =
     (let idx = semanticMatchRuleIndex st + 1;
          st' = st\<lparr>semanticMatchRuleIndex := idx,
                   scoredRules := scoredRules st @
                     [\<lparr>scoredCandidates_of = scoredCandidates res, rule_of = d, chosen = False\<rparr>]\<rparr>
      in case maxScore res of
           None \<Rightarrow> st'
         | Some ts \<Rightarrow>
             (if ts \<noteq> 0 \<and> ts > getThreshold sms \<and> ts > bestScore st
              then st'\<lparr>bestScore := ts, bestEdge := Some e,
                       bestRule := Some (SEMANTIC_MATCH d), bestSemanticMatchRuleIndex := idx\<rparr>
              else st'))"

fun scanRules ::
  "SemanticMatchService \<Rightarrow> string \<Rightarrow> Edge \<Rightarrow> EdgeRule list \<Rightarrow> Scan \<Rightarrow> error + Scan" where
  "scanRules sms u e [] st = Inr st"
| "scanRules sms u e (REPEATED_FAIL d # rs) st = scanRules sms u e rs st"
| "scanRules sms u e (SEMANTIC_MATCH d # rs) st =
     (case checkSemanticMatchRule sms u d of
        Inl err \<Rightarrow> Inl err
      | Inr res \<Rightarrow> scanRules sms u e rs (recordRule sms e d res st))"

fun scanEdges ::
  "SemanticMatchService \<Rightarrow> string \<Rightarrow> Edge list \<Rightarrow> Scan \<Rightarrow> error + Scan" where
  "scanEdges sms u [] st = Inr st"
| "scanEdges sms u (e # es) st =
     (case scanRules sms u e (rules e) st of
        Inl err \<Rightarrow> Inl err
      | Inr st' \<Rightarrow> scanEdges sms u es st')"

text \<open>\<open>applyMutations\<close>: each mutation in list order, on the world passed by reference.\<close>

fun applyMutationList :: "World \<Rightarrow> Mutation list \<Rightarrow> World" where
  "applyMutationList w [] = w"
| "applyMutationList w (m # ms) =
     applyMutationList
       (case mutationType m of
          ADD \<Rightarrow> w(key_m m \<mapsto> value_m m)
        | REMOVE \<Rightarrow> w(key_m m := None)) ms"

definition applyMutations :: "World \<Rightarrow> Edge \<Rightarrow> World" where
  "applyMutations w e = (case mutations e of None \<Rightarrow> w | Some ms \<Rightarrow> applyMutationList w ms)"

text \<open>
  The repeated-fail scan of \<open>evaluate\<close>: every rule of every repeated-fail edge, in
  order and without a break; a rule whose \<open>failCount\<close> the attempt number of the
  result has reached rewrites the result.
\<close>

definition takeFallback :: "Edge \<Rightarrow> RepeatedFailRule \<Rightarrow> InferenceResult \<Rightarrow> InferenceResult" where
  "takeFallback e d res =
     (if attemptNumber (state res) \<ge> failCount d
      then res\<lparr>state := (state res)\<lparr>attemptNumber := 0, node := target e\<rparr>,
               edge := Some e, rule := Some (REPEATED_FAIL d)\<rparr>
      else res)"

fun failRules :: "Edge \<Rightarrow> EdgeRule list \<Rightarrow> InferenceResult \<Rightarrow> InferenceResult" where
  "failRules e [] res = res"
| "failRules e (SEMANTIC_MATCH d # rs) res = failRules e rs res"
| "failRules e (REPEATED_FAIL d # rs) res = failRules e rs (takeFallback e d res)"

fun failEdges :: "Edge list \<Rightarrow> InferenceResult \<Rightarrow> InferenceResult" where
  "failEdges [] res = res"
| "failEdges (e # es) res = failEdges es (failRules e (rules e) res)"

text \<open>\<open>scoredSemanticMatchRules[bestSemanticMatchRuleIndex].chosen = true\<close>.\<close>

definition markChosen ::
  "ScoredSemanticMatchRule list \<Rightarrow> int \<Rightarrow> error + ScoredSemanticMatchRule list" where
  "markChosen scored i =
     (case jsIndex scored i of
        None \<Rightarrow> Inl TypeError
      | Some r \<Rightarrow> Inr (scored[nat i := r\<lparr>chosen := True\<rparr>]))"

text \<open>
  \<open>evaluate\<close>: the scorer must be ready; the semantic scan runs over the outgoing edges
  that pass their conditions in the world of the state; the default result keeps the
  node and counts the attempt; a best edge is taken with its mutations applied to the
  world (when the state has one); without a best edge the repeated-fail edges of the
  node are scanned.
\<close>

definition evaluate ::
  "SemanticMatchService \<Rightarrow> Graph \<Rightarrow> string \<Rightarrow> InferenceState \<Rightarrow> error + InferenceResult" where
  "evaluate sms graph utterance st =
     (if \<not> ready sms then Inl NotReady
      else case scanEdges sms utterance (getOutEdges (node st) graph (world st)) initScan of
        Inl err \<Rightarrow> Inl err
      | Inr sc \<Rightarrow>
          (let result = \<lparr>state = \<lparr>node = node st, attemptNumber = attemptNumber st + 1,
                                  world = world st\<rparr>,
                         scoredSemanticMatchRules = scoredRules sc,
                         edge = None, rule = None\<rparr>
           in case bestEdge sc of
                Some be \<Rightarrow>
                  (case markChosen (scoredRules sc) (bestSemanticMatchRuleIndex sc) of
                     Inl err \<Rightarrow> Inl err
                   | Inr scored' \<Rightarrow>
                       Inr \<lparr>state = \<lparr>node = target be, attemptNumber = 0,
                                     world = map_option (\<lambda>w. applyMutations w be) (world st)\<rparr>,
                            scoredSemanticMatchRules = scored',
                            edge = Some be, rule = bestRule sc\<rparr>)
              | None \<Rightarrow>
                  Inr (failEdges (getRepeatedFailEdges (node (state result)) graph) result)))"

section \<open>Layered layout (common/utils, dagLayout)\<close>

text \<open>
  \<open>Map.set\<close> on the depth map, whose entries are read back in insertion order: a key
  already present keeps its place.
\<close>

fun mapSet :: "'k \<Rightarrow> 'v \<Rightarrow> ('k \<times> 'v) list \<Rightarrow> ('k \<times> 'v) list" where
  "mapSet k v [] = [(k, v)]"
| "mapSet k v (p # ps) = (if fst p = k then (k, v) # ps else p # mapSet k v ps)"

text \<open>The set-up of the in-degrees: 1 for the start node, then one more per edge target.\<close>

fun countInDegrees :: "Edge list \<Rightarrow> (NodeID \<rightharpoonup> int) \<Rightarrow> (NodeID \<rightharpoonup> int)" where
  "countInDegrees [] m = m"
| "countInDegrees (e # es) m =
     countInDegrees es
       (case m (id_node (target e)) of
          Some n \<Rightarrow> m(id_node (target e) \<mapsto> n + 1)
        | None \<Rightarrow> m(id_node (target e) \<mapsto> 1))"

record Layout =
  inDegree :: "NodeID \<rightharpoonup> int"
  finished :: "NodeID set"
  depthMap :: "(NodeID \<times> nat) list"
  maxDepth :: nat
  proc :: "(Node \<times> nat) list"

text \<open>
  One turn of the traversal loop, for the entry \<open>cur\<close> already shifted off the queue.
  A node popped with one remaining in-degree is finished and its outgoing edges
  (conditions ignored) are enqueued one level deeper; otherwise its in-degree drops.
  Either way its depth is overwritten. A node without an in-degree entry reads
  \<open>undefined\<close>, which is never 1 and stays not-a-number: it is never finished.
\<close>

definition layoutStep :: "Graph \<Rightarrow> Node \<times> nat \<Rightarrow> Layout \<Rightarrow> Layout" where
  "layoutStep graph cur s =
     (let n = fst cur; d = snd cur;
          s' = (case inDegree s (id_node n) of
                  None \<Rightarrow> s
                | Some remainingInDegree \<Rightarrow>
                    (if remainingInDegree = 1
                     then s\<lparr>finished := insert (id_node n) (finished s),
                            proc := proc s @ map (\<lambda>e. (target e, d + 1)) (getOutEdges n graph None)\<rparr>
                     else s\<lparr>inDegree := (inDegree s)(id_node n \<mapsto> remainingInDegree - 1)\<rparr>))
      in s'\<lparr>depthMap := mapSet (id_node n) d (depthMap s'),
            maxDepth := (if d > maxDepth s' then d else maxDepth s')\<rparr>)"

text \<open>
  The \<open>while (proc.length > 0)\<close> loop. Nothing in the loop itself bounds the number of
  turns, so not returning is the value \<open>None\<close>.
\<close>

partial_function (option) layoutLoop :: "Graph \<Rightarrow> Layout \<Rightarrow> Layout option" where
  "layoutLoop graph s =
     (case proc s of
        [] \<Rightarrow> Some s
      | cur # rest \<Rightarrow> layoutLoop graph (layoutStep graph cur (s\<lparr>proc := rest\<rparr>)))"

declare layoutLoop.simps [code]

text \<open>Inverting the depth map: one list per depth up to \<open>maxDepth\<close>, in insertion order.\<close>

definition depthToNode :: "(NodeID \<times> nat) list \<Rightarrow> nat \<Rightarrow> NodeID list list" where
  "depthToNode dm md = map (\<lambda>i. map fst (filter (\<lambda>item. snd item = i) dm)) [0 ..< md + 1]"

text \<open>
  \<open>dagLayout\<close>: a start id that names no node makes \<open>startNode\<close> undefined and the first
  read of \<open>startNode.id\<close> throws; \<open>Some None\<close> under \<open>Inr\<close> is the \<open>null\<close> result.
\<close>

definition dagLayout :: "Graph \<Rightarrow> (error + NodeID list list option) option" where
  "dagLayout graph =
     (case filter (\<lambda>n. id_node n = start graph) (nodes graph) of
        [] \<Rightarrow> Some (Inl TypeError)
      | startNode # _ \<Rightarrow>
          (case layoutLoop graph
                  \<lparr>inDegree = countInDegrees (edges graph) [id_node startNode \<mapsto> 1],
                   finished = {}, depthMap = [], maxDepth = 0, proc = [(startNode, 0)]\<rparr> of
             None \<Rightarrow> None
           | Some s \<Rightarrow>
               (if card (finished s) \<noteq> length (nodes graph) then Some (Inr None)
                else Some (Inr (Some (depthToNode (depthMap s) (maxDepth s)))))))"

section \<open>Serialization (services/persistence/graph_serialization)\<close>

text \<open>
  The wire format, as it comes back from the store. The declared interfaces require
  the node list and the edge list of a graph and the rules, mutations and conditions of
  an edge, but a store such as the Firebase Realtime Database keeps no empty array, and
  the conversion guards the edge list, the mutations and the conditions for it: the
  five lists are options here, and \<open>None\<close> is a field that the stored object lacks. For
  the same reason a stored semantic-match rule may lack its data (no candidates); a
  repeated-fail rule always has its data, the \<open>failCount\<close>.
\<close>

datatype StoredRule = WithData EdgeRule | SemanticNoData

record SerializableNodeAnchor =
  anchor_x :: real
  anchor_y :: real

record SerializableNode =
  id_s :: NodeID
  title_s :: string
  prompt_s :: string
  retryPrompt_s :: string
  autoAdvance_s :: "bool option"
  anchor :: "SerializableNodeAnchor option"

record SerializableEdge =
  sourceIndex :: int
  targetIndex :: int
  rules_s :: "StoredRule list option"
  mutations_s :: "Mutation list option"
  conditions_s :: "Condition list option"

record SerializableGraph =
  id_sg :: string
  contentId_sg :: "string option"
  name_sg :: string
  start_sg :: NodeID
  nodes_sg :: "SerializableNode list option"
  edges_sg :: "SerializableEdge list option"

text \<open>
  The in-memory graph as the two conversions handle it at run time. It is typed
  \<open>Graph\<close>, but \<open>graph.nodes[e.sourceIndex]\<close> is \<open>undefined\<close> for an index out of range
  and is stored as it is: the source and the target of an edge are options here.
  \<open>runtimeGraph\<close> is a typed graph as such a value.
\<close>

record RuntimeEdge =
  source_r :: "Node option"
  target_r :: "Node option"
  rules_r :: "EdgeRule list"
  conditions_r :: "Condition list option"
  mutations_r :: "Mutation list option"

record RuntimeGraph =
  id_r :: string
  contentId_r :: "string option"
  name_r :: string
  start_r :: NodeID
  nodes_r :: "Node list"
  edges_r :: "RuntimeEdge list"

definition runtimeEdge :: "Edge \<Rightarrow> RuntimeEdge" where
  "runtimeEdge e = \<lparr>source_r = Some (source e), target_r = Some (target e), rules_r = rules e,
     conditions_r = conditions e, mutations_r = mutations e\<rparr>"

definition runtimeGraph :: "Graph \<Rightarrow> RuntimeGraph" where
  "runtimeGraph graph = \<lparr>id_r = id_graph graph, contentId_r = contentId graph,
     name_r = name_graph graph, start_r = start graph, nodes_r = nodes graph,
     edges_r = map runtimeEdge (edges graph)\<rparr>"

text \<open>\<open>Number(fx)\<close> for a coordinate that is not undefined: \<open>Number(null)\<close> is 0.\<close>

fun toNumber :: "coord \<Rightarrow> real" where
  "toNumber (Num r) = r"
| "toNumber Null = 0"
| "toNumber Undefined = 0"

definition purifyNode :: "Node \<Rightarrow> SerializableNode" where
  "purifyNode n =
     \<lparr>id_s = id_node n, title_s = title n, prompt_s = prompt n, retryPrompt_s = retryPrompt n,
      autoAdvance_s = autoAdvance n,
      anchor = (if fx n \<noteq> Undefined \<and> fy n \<noteq> Undefined
                then Some \<lparr>anchor_x = toNumber (fx n), anchor_y = toNumber (fy n)\<rparr>
                else None)\<rparr>"

text \<open>
  \<open>findNodeIndex\<close>, the loop from index \<open>i\<close> on. Each turn reads \<open>target.id\<close>, which
  throws a \<open>TypeError\<close> for an undefined target; falling off the end of the node list
  throws the not-found error, also for an undefined target when the list is empty.
\<close>

fun findNodeIndexFrom :: "int \<Rightarrow> Node list \<Rightarrow> Node option \<Rightarrow> error + int" where
  "findNodeIndexFrom i [] t = Inl NodeNotFound"
| "findNodeIndexFrom i (n # ns) None = Inl TypeError"
| "findNodeIndexFrom i (n # ns) (Some t) =
     (if id_node n = id_node t then Inr i else findNodeIndexFrom (i + 1) ns (Some t))"

definition findNodeIndex :: "Node list \<Rightarrow> Node option \<Rightarrow> error + int" where
  "findNodeIndex ns t = findNodeIndexFrom 0 ns t"

text \<open>A truthy optional string: present and not empty.\<close>

definition truthyString :: "string option \<Rightarrow> string option" where
  "truthyString s = (case s of None \<Rightarrow> None | Some t \<Rightarrow> (if t = [] then None else Some t))"

definition toNode :: "SerializableNode \<Rightarrow> Node" where
  "toNode e =
     \<lparr>id_node = id_s e, title = title_s e, prompt = prompt_s e, retryPrompt = retryPrompt_s e,
      autoAdvance = autoAdvance_s e,
      fx = (case anchor e of None \<Rightarrow> Undefined | Some a \<Rightarrow> Num (anchor_x a)),
      fy = (case anchor e of None \<Rightarrow> Undefined | Some a \<Rightarrow> Num (anchor_y a))\<rparr>"

text \<open>
  The repair of a stored rule: a semantic-match rule without data gets the data of a
  rule with no candidates. (The source writes that data into the stored rule itself.)
\<close>

fun repairRule :: "StoredRule \<Rightarrow> EdgeRule" where
  "repairRule (WithData r) = r"
| "repairRule SemanticNoData = SEMANTIC_MATCH \<lparr>matchCandidates = []\<rparr>"

text \<open>
  An edge of the wire format, resolved against the nodes already built. The repair
  loop iterates \<open>e.rules\<close> unguarded and throws a \<open>TypeError\<close> when the edge has none;
  absent mutations and conditions become empty lists; the two node reads are stored
  whether defined or not.
\<close>

definition toEdge :: "Node list \<Rightarrow> SerializableEdge \<Rightarrow> error + RuntimeEdge" where
  "toEdge ns e =
     (case rules_s e of
        None \<Rightarrow> Inl TypeError
      | Some rs \<Rightarrow>
          Inr \<lparr>source_r = jsIndex ns (sourceIndex e), target_r = jsIndex ns (targetIndex e),
               rules_r = map repairRule rs,
               conditions_r = Some (case conditions_s e of None \<Rightarrow> [] | Some cs \<Rightarrow> cs),
               mutations_r = Some (case mutations_s e of None \<Rightarrow> [] | Some ms \<Rightarrow> ms)\<rparr>)"

fun toEdges :: "Node list \<Rightarrow> SerializableEdge list \<Rightarrow> error + RuntimeEdge list" where
  "toEdges ns [] = Inr []"
| "toEdges ns (e # es) =
     (case toEdge ns e of
        Inl err \<Rightarrow> Inl err
      | Inr e' \<Rightarrow> (case toEdges ns es of Inl err \<Rightarrow> Inl err | Inr es' \<Rightarrow> Inr (e' # es')))"

text \<open>
  \<open>serializableGraphToGraph\<close>. The loop over the nodes is unguarded and throws a
  \<open>TypeError\<close> when the graph has no node list; a graph without an edge list gets no
  edge.
\<close>

definition serializableGraphToGraph :: "SerializableGraph \<Rightarrow> error + RuntimeGraph" where
  "serializableGraphToGraph sg =
     (case nodes_sg sg of
        None \<Rightarrow> Inl TypeError
      | Some sn \<Rightarrow>
          (let ns = map toNode sn
           in case (case edges_sg sg of None \<Rightarrow> Inr [] | Some es \<Rightarrow> toEdges ns es) of
                Inl err \<Rightarrow> Inl err
              | Inr es \<Rightarrow>
                  Inr \<lparr>id_r = id_sg sg, contentId_r = truthyString (contentId_sg sg),
                       name_r = name_sg sg, start_r = start_sg sg, nodes_r = ns,
                       edges_r = es\<rparr>))"

definition fromEdge :: "Node list \<Rightarrow> RuntimeEdge \<Rightarrow> error + SerializableEdge" where
  "fromEdge ns e =
     (case findNodeIndex ns (source_r e) of
        Inl err \<Rightarrow> Inl err
      | Inr si \<Rightarrow>
          (case findNodeIndex ns (target_r e) of
             Inl err \<Rightarrow> Inl err
           | Inr ti \<Rightarrow>
               Inr \<lparr>sourceIndex = si, targetIndex = ti,
                    rules_s = Some (map WithData (rules_r e)),
                    mutations_s = Some (case mutations_r e of None \<Rightarrow> [] | Some ms \<Rightarrow> ms),
                    conditions_s = Some (case conditions_r e of None \<Rightarrow> [] | Some cs \<Rightarrow> cs)\<rparr>))"

fun fromEdges :: "Node list \<Rightarrow> RuntimeEdge list \<Rightarrow> error + SerializableEdge list" where
  "fromEdges ns [] = Inr []"
| "fromEdges ns (e # es) =
     (case fromEdge ns e of
        Inl err \<Rightarrow> Inl err
      | Inr e' \<Rightarrow> (case fromEdges ns es of Inl err \<Rightarrow> Inl err | Inr es' \<Rightarrow> Inr (e' # es')))"

definition graphToSerializableGraph :: "RuntimeGraph \<Rightarrow> error + SerializableGraph" where
  "graphToSerializableGraph graph =
     (case fromEdges (nodes_r graph) (edges_r graph) of
        Inl err \<Rightarrow> Inl err
      | Inr es \<Rightarrow>
          Inr \<lparr>id_sg = id_r graph, contentId_sg = truthyString (contentId_r graph),
               name_sg = name_r graph, start_sg = start_r graph,
               nodes_sg = Some (map purifyNode (nodes_r graph)), edges_sg = Some es\<rparr>)"

text \<open>Saving what was loaded: the round trip through the in-memory graph.\<close>

definition roundTrip :: "SerializableGraph \<Rightarrow> error + SerializableGraph" where
  "roundTrip sg =
     (case serializableGraphToGraph sg of
        Inl err \<Rightarrow> Inl err
      | Inr graph \<Rightarrow> graphToSerializableGraph graph)"



section \<open>Notions used to state the properties\<close>

text \<open>The score list that the scorer returns for a rule.\<close>

definition scoresFor :: "SemanticMatchService \<Rightarrow> string \<Rightarrow> SemanticMatchRule \<Rightarrow> real list" where
  "scoresFor sms u r = semanticSimilarity sms u (map text_of (matchCandidates r))"

text \<open>
  The scoring of a rule can be carried out: the rule has no candidate, or a score
  above -1 is among the scores read for its candidates.
\<close>

definition scorable :: "SemanticMatchService \<Rightarrow> string \<Rightarrow> SemanticMatchRule \<Rightarrow> bool" where
  "scorable sms u r \<longleftrightarrow>
     matchCandidates r = []
     \<or> (\<exists>s\<in>set (take (length (matchCandidates r)) (scoresFor sms u r)). -1 < s)"

text \<open>
  The semantic-match rules that an evaluation examines, in the order of the two loops:
  edge by edge, and rule by rule within an edge.
\<close>

fun semanticRules :: "EdgeRule list \<Rightarrow> SemanticMatchRule list" where
  "semanticRules [] = []"
| "semanticRules (SEMANTIC_MATCH d # rs) = d # semanticRules rs"
| "semanticRules (REPEATED_FAIL d # rs) = semanticRules rs"

fun isSemanticMatch :: "EdgeRule \<Rightarrow> bool" where
  "isSemanticMatch (SEMANTIC_MATCH d) = True"
| "isSemanticMatch (REPEATED_FAIL d) = False"

definition examined :: "Edge list \<Rightarrow> (Edge \<times> SemanticMatchRule) list" where
  "examined es = concat (map (\<lambda>e. map (Pair e) (semanticRules (rules e))) es)"

text \<open>The two scoring loops as one loop over the examined rules.\<close>

fun scanFlat ::
  "SemanticMatchService \<Rightarrow> string \<Rightarrow> (Edge \<times> SemanticMatchRule) list \<Rightarrow> Scan \<Rightarrow> error + Scan" where
  "scanFlat sms u [] st = Inr st"
| "scanFlat sms u (x # xs) st =
     (case checkSemanticMatchRule sms u (snd x) of
        Inl err \<Rightarrow> Inl err
      | Inr res \<Rightarrow> scanFlat sms u xs (recordRule sms (fst x) (snd x) res st))"

text \<open>The qualifying score of a rule: its top score, unless an anti-example holds it.\<close>

definition qualifying :: "SemanticMatchService \<Rightarrow> string \<Rightarrow> SemanticMatchRule \<Rightarrow> real option" where
  "qualifying sms u d =
     (case checkSemanticMatchRule sms u d of Inl err \<Rightarrow> None | Inr res \<Rightarrow> maxScore res)"

text \<open>The rules examined by an evaluation in a state, and their qualifying scores.\<close>

definition examinedAt :: "Graph \<Rightarrow> InferenceState \<Rightarrow> (Edge \<times> SemanticMatchRule) list" where
  "examinedAt g st = examined (getOutEdges (node st) g (world st))"

definition qualifyingScores ::
  "SemanticMatchService \<Rightarrow> string \<Rightarrow> Graph \<Rightarrow> InferenceState \<Rightarrow> real option list" where
  "qualifyingScores sms u g st = map (\<lambda>x. qualifying sms u (snd x)) (examinedAt g st)"

text \<open>
  Position \<open>i\<close> wins among the qualifying scores \<open>qs\<close>: its score is above the threshold
  and above 0, no score above the threshold is greater, and none before it is as great.
\<close>

definition isWinner :: "real \<Rightarrow> real option list \<Rightarrow> nat \<Rightarrow> bool" where
  "isWinner thr qs i =
     (i < length qs \<and>
      (\<exists>s. qs ! i = Some s \<and> thr < s \<and> 0 < s \<and>
           (\<forall>j<length qs. \<forall>t. qs ! j = Some t \<and> thr < t \<longrightarrow> t \<le> s) \<and>
           (\<forall>j<i. \<forall>t. qs ! j = Some t \<and> thr < t \<longrightarrow> t < s)))"

text \<open>The edge relation of a graph on node ids, for paths and cycles.\<close>

definition edgeRel :: "Graph \<Rightarrow> (NodeID \<times> NodeID) set" where
  "edgeRel graph = set (map (\<lambda>e. (id_node (source e), id_node (target e))) (edges graph))"

text \<open>
  Notions for the layout loop. The graph is well formed when its node ids are pairwise
  distinct, the start id names a node, and every edge joins nodes of the graph.
\<close>

definition src :: "Edge \<Rightarrow> NodeID" where
  "src e = id_node (source e)"

definition tgt :: "Edge \<Rightarrow> NodeID" where
  "tgt e = id_node (target e)"

definition nodeIds :: "Graph \<Rightarrow> NodeID set" where
  "nodeIds graph = set (map id_node (nodes graph))"

definition wellFormed :: "Graph \<Rightarrow> bool" where
  "wellFormed graph \<longleftrightarrow>
     distinct (map id_node (nodes graph)) \<and> start graph \<in> nodeIds graph \<and>
     (\<forall>e\<in>set (edges graph). src e \<in> nodeIds graph \<and> tgt e \<in> nodeIds graph)"

text \<open>
  The in-degree that the set-up gives a node; the number of queue entries made so far
  for a node, given the finished nodes; the number of its entries still in the queue.
\<close>

definition indeg0 :: "Graph \<Rightarrow> NodeID \<Rightarrow> nat" where
  "indeg0 graph v =
     (if v = start graph then 1 else 0) + length (filter (\<lambda>e. tgt e = v) (edges graph))"

definition pushed :: "Graph \<Rightarrow> NodeID set \<Rightarrow> NodeID \<Rightarrow> nat" where
  "pushed graph F v =
     (if v = start graph then 1 else 0)
     + length (filter (\<lambda>e. tgt e = v \<and> src e \<in> F) (edges graph))"

definition inq :: "(Node \<times> nat) list \<Rightarrow> NodeID \<Rightarrow> nat" where
  "inq q v = length (filter (\<lambda>x. id_node (fst x) = v) q)"

text \<open>The state in which \<open>dagLayout\<close> enters its loop.\<close>

definition initialLayout :: "Graph \<Rightarrow> Node \<Rightarrow> Layout" where
  "initialLayout graph startNode =
     \<lparr>inDegree = countInDegrees (edges graph) [id_node startNode \<mapsto> 1],
      finished = {}, depthMap = [], maxDepth = 0, proc = [(startNode, 0)]\<rparr>"

text \<open>
  The counting invariant of the loop: a finished node has no queue entry left and all
  its incoming edges come from finished nodes; the in-degree entry of an unfinished
  node is what the set-up gave it, less the entries already popped.
\<close>

definition cntInv :: "Graph \<Rightarrow> Layout \<Rightarrow> bool" where
  "cntInv graph s \<longleftrightarrow>
     (\<forall>v. v \<in> finished s \<longrightarrow>
        inq (proc s) v = 0 \<and> pushed graph (finished s) v = indeg0 graph v
        \<and> 0 < indeg0 graph v)
   \<and> (\<forall>v. v \<notin> finished s \<longrightarrow>
        inq (proc s) v \<le> pushed graph (finished s) v
        \<and> (0 < indeg0 graph v \<longrightarrow>
             (\<exists>r. inDegree s v = Some r \<and> 1 \<le> r
                \<and> r = int (indeg0 graph v) - int (pushed graph (finished s) v)
                      + int (inq (proc s) v))))"

text \<open>Each turn of the loop lowers this number by one.\<close>

definition layoutMeasure :: "Graph \<Rightarrow> Layout \<Rightarrow> nat" where
  "layoutMeasure graph s =
     length (proc s) + length (filter (\<lambda>e. src e \<notin> finished s) (edges graph))"

text \<open>
  The depth invariant: the queue is sorted by depth and spans at most two depths, no
  recorded depth exceeds a queued one or \<open>maxDepth\<close>, and every finished node has a
  recorded depth.
\<close>

definition depInv :: "Layout \<Rightarrow> bool" where
  "depInv s \<longleftrightarrow>
     distinct (map fst (depthMap s))
   \<and> sorted (map snd (proc s))
   \<and> (\<forall>x\<in>set (proc s). \<forall>y\<in>set (proc s). snd x \<le> snd y + 1)
   \<and> (\<forall>p\<in>set (depthMap s). \<forall>x\<in>set (proc s). snd p \<le> snd x)
   \<and> (\<forall>p\<in>set (depthMap s). snd p \<le> maxDepth s)
   \<and> finished s \<subseteq> fst ` set (depthMap s)"

text \<open>
  The path invariant: an edge out of a finished node has raised the depth of its
  target above the depth of its source, or has its queue entry still waiting; every
  recorded and every queued depth other than the start's 0 is one more than the depth
  of a finished predecessor.
\<close>

definition justified :: "Graph \<Rightarrow> Layout \<Rightarrow> NodeID \<Rightarrow> nat \<Rightarrow> bool" where
  "justified graph s w k \<longleftrightarrow>
     (w = start graph \<and> k = 0)
   \<or> (\<exists>e\<in>set (edges graph). tgt e = w \<and> src e \<in> finished s
         \<and> (\<exists>j. map_of (depthMap s) (src e) = Some j \<and> k = j + 1))"

definition pathInv :: "Graph \<Rightarrow> Layout \<Rightarrow> bool" where
  "pathInv graph s \<longleftrightarrow>
     (\<forall>e\<in>set (edges graph). src e \<in> finished s \<longrightarrow>
        (\<exists>k. map_of (depthMap s) (src e) = Some k
          \<and> ((\<exists>k'. map_of (depthMap s) (tgt e) = Some k' \<and> k + 1 \<le> k')
              \<or> (\<exists>x\<in>set (proc s). id_node (fst x) = tgt e \<and> k + 1 \<le> snd x))))
   \<and> (\<forall>w k. map_of (depthMap s) w = Some k \<longrightarrow> justified graph s w k)
   \<and> (\<forall>x\<in>set (proc s). justified graph s (id_node (fst x)) (snd x))"

text \<open>The longest path from the start node to \<open>v\<close> has \<open>i\<close> edges.\<close>

definition longestPath :: "Graph \<Rightarrow> NodeID \<Rightarrow> nat \<Rightarrow> bool" where
  "longestPath graph v i \<longleftrightarrow>
     (start graph, v) \<in> edgeRel graph ^^ i
   \<and> (\<forall>n. (start graph, v) \<in> edgeRel graph ^^ n \<longrightarrow> n \<le> i)"

section \<open>Sample data\<close>

definition mkNode :: "NodeID \<Rightarrow> Node" where
  "mkNode i = \<lparr>id_node = i, title = '''', prompt = '''', retryPrompt = '''',
     autoAdvance = None, fx = Undefined, fy = Undefined\<rparr>"

definition mkEdge :: "NodeID \<Rightarrow> NodeID \<Rightarrow> EdgeRule list \<Rightarrow> Edge" where
  "mkEdge a b rs = \<lparr>source = mkNode a, target = mkNode b, rules = rs,
     conditions = None, mutations = None\<rparr>"

definition mkGraph :: "NodeID list \<Rightarrow> Edge list \<Rightarrow> Graph" where
  "mkGraph ids es = \<lparr>id_graph = ''g'', contentId = None, name_graph = ''g'',
     start = ''start'', nodes = map mkNode ids, edges = es\<rparr>"

text \<open>A scorer that is ready and looks each candidate text up in a table (0 when absent).\<close>

definition tableScorer :: "real \<Rightarrow> (string \<times> real) list \<Rightarrow> SemanticMatchService" where
  "tableScorer thr tbl = \<lparr>ready = True, getThreshold = thr,
     semanticSimilarity = (\<lambda>u cs. map (\<lambda>c. case map_of tbl c of None \<Rightarrow> 0 | Some s \<Rightarrow> s) cs)\<rparr>"

definition positive :: "string \<Rightarrow> MatchCandidate" where
  "positive t = \<lparr>text_of = t, antiExample = None\<rparr>"

definition negative :: "string \<Rightarrow> MatchCandidate" where
  "negative t = \<lparr>text_of = t, antiExample = Some True\<rparr>"

definition failAfter :: "int \<Rightarrow> EdgeRule" where
  "failAfter n = REPEATED_FAIL \<lparr>failMessage = None, failCount = n\<rparr>"

definition forbidEdge :: Edge where
  "forbidEdge = (mkEdge ''start'' ''m'' [SEMANTIC_MATCH \<lparr>matchCandidates = []\<rparr>])
     \<lparr>conditions := Some [\<lparr>conditionType = FORBID, key_c = ''k'', value_c = ''v''\<rparr>]\<rparr>"

definition addKV :: Mutation where
  "addKV = \<lparr>mutationType = ADD, key_m = ''k'', value_m = ''v''\<rparr>"

text \<open>A fallback edge and a semantic edge, each with the mutation Add(k, v).\<close>

definition fallbackMutEdge :: Edge where
  "fallbackMutEdge = (mkEdge ''start'' ''m'' [failAfter 1])\<lparr>mutations := Some [addKV]\<rparr>"

definition semanticMutEdge :: Edge where
  "semanticMutEdge = (mkEdge ''start'' ''m'' [SEMANTIC_MATCH \<lparr>matchCandidates = [positive ''yes'']\<rparr>])
     \<lparr>mutations := Some [addKV]\<rparr>"

text \<open>A fallback edge guarded by Require(k, v).\<close>

definition fallbackCondEdge :: Edge where
  "fallbackCondEdge = (mkEdge ''start'' ''m'' [failAfter 1])
     \<lparr>conditions := Some [\<lparr>conditionType = REQUIRE, key_c = ''k'', value_c = ''v''\<rparr>]\<rparr>"

definition fallback3Edge :: Edge where
  "fallback3Edge = mkEdge ''start'' ''m'' [failAfter 3]"

text \<open>Three semantic edges out of the start node.\<close>

definition threeWayGraph :: Graph where
  "threeWayGraph = mkGraph [''start'', ''a'', ''b'', ''c'']
     [mkEdge ''start'' ''a'' [SEMANTIC_MATCH \<lparr>matchCandidates = [positive ''maybe'']\<rparr>],
      mkEdge ''start'' ''b'' [SEMANTIC_MATCH \<lparr>matchCandidates = [positive ''yes'']\<rparr>],
      mkEdge ''start'' ''c'' [SEMANTIC_MATCH \<lparr>matchCandidates = [positive ''sure'']\<rparr>]]"

text \<open>A wire-format graph: two nodes, one with an anchor, and one edge between them.\<close>

definition sampleWire :: SerializableGraph where
  "sampleWire = \<lparr>id_sg = ''g1'', contentId_sg = None, name_sg = ''demo'', start_sg = ''n0'',
     nodes_sg =
       Some [\<lparr>id_s = ''n0'', title_s = ''Hello'', prompt_s = ''Hi'', retryPrompt_s = ''Again'',
          autoAdvance_s = None, anchor = Some \<lparr>anchor_x = 10, anchor_y = 20\<rparr>\<rparr>,
        \<lparr>id_s = ''n1'', title_s = ''Bye'', prompt_s = ''Bye'', retryPrompt_s = ''Again'',
          autoAdvance_s = Some True, anchor = None\<rparr>],
     edges_sg =
       Some [\<lparr>sourceIndex = 0, targetIndex = 1,
          rules_s = Some [WithData (SEMANTIC_MATCH \<lparr>matchCandidates = [positive ''yes'']\<rparr>)],
          mutations_s = Some [addKV], conditions_s = Some []\<rparr>]\<rparr>"

definition startState :: "World option \<Rightarrow> InferenceState" where
  "startState w = \<lparr>node = mkNode ''start'', attemptNumber = 0, world = w\<rparr>"

section \<open>Evaluation of the definitions\<close>

lemmas sample_defs = mkGraph_def mkEdge_def mkNode_def tableScorer_def positive_def
  negative_def failAfter_def forbidEdge_def addKV_def fallbackMutEdge_def semanticMutEdge_def
  fallbackCondEdge_def fallback3Edge_def startState_def

lemmas eval_defs = evaluate_def getOutEdges_def getRepeatedFailEdges_def isRepeatedFail_def
  passedConditions_def initScan_def takeFallback_def applyMutations_def markChosen_def
  jsIndex_def checkSemanticMatchRule_def markTopScore_def recordRule_def isAnti_def

section \<open>Condition gating\<close>

text \<open>
  C1. A Forbid(key, value) condition is meant to exclude the edge exactly when
  world[key] equals value. The code excludes it whenever the key is present: with the
  world \<open>{k: other}\<close> the edge guarded by Forbid(k, v) is not among the outgoing edges,
  while it is with the empty world and is not with \<open>{k: v}\<close>.
\<close>

theorem C1_forbid_other_value_excluded:
  "getOutEdges (mkNode ''start'') (mkGraph [''start'', ''m''] [forbidEdge])
     (Some [''k'' \<mapsto> ''other'']) = []
   \<and> getOutEdges (mkNode ''start'') (mkGraph [''start'', ''m''] [forbidEdge])
     (Some Map.empty) = [forbidEdge]
   \<and> getOutEdges (mkNode ''start'') (mkGraph [''start'', ''m''] [forbidEdge])
     (Some [''k'' \<mapsto> ''v'']) = []"
  by (simp add: getOutEdges_def mkGraph_def forbidEdge_def mkEdge_def passedConditions_def
      mkNode_def)

section \<open>The scoring loops as one loop\<close>

lemma scanFlat_append:
  "scanFlat sms u (xs @ ys) st =
     (case scanFlat sms u xs st of Inl err \<Rightarrow> Inl err | Inr st' \<Rightarrow> scanFlat sms u ys st')"
  by (induction xs arbitrary: st) (auto split: sum.splits)

lemma scanRules_flat:
  "scanRules sms u e rs st = scanFlat sms u (map (Pair e) (semanticRules rs)) st"
  by (induction rs arbitrary: st rule: semanticRules.induct) (auto split: sum.splits)

lemma scanEdges_flat: "scanEdges sms u es st = scanFlat sms u (examined es) st"
  by (induction es arbitrary: st)
     (auto simp: examined_def scanRules_flat scanFlat_append split: sum.splits)

section \<open>Repeated-fail fallback\<close>

text \<open>
  C2. When a repeated-fail edge is taken, its mutations are meant to be applied as for
  a semantic match. The fallback branch of \<open>evaluate\<close> never calls \<open>applyMutations\<close>:
  the fallback edge with the mutation Add(k, v) is taken and the world stays empty,
  while the semantic edge with the same mutation leaves \<open>{k: v}\<close>.
\<close>

theorem C2_fallback_mutations_not_applied:
  "evaluate (tableScorer 0.75 []) (mkGraph [''start'', ''m''] [fallbackMutEdge]) ''hello''
     (startState (Some Map.empty))
   = Inr \<lparr>state = \<lparr>node = mkNode ''m'', attemptNumber = 0, world = Some Map.empty\<rparr>,
          scoredSemanticMatchRules = [], edge = Some fallbackMutEdge,
          rule = Some (failAfter 1)\<rparr>
   \<and> evaluate (tableScorer 0.75 [(''yes'', 0.9)]) (mkGraph [''start'', ''m''] [semanticMutEdge])
       ''hello'' (startState (Some Map.empty))
   = Inr \<lparr>state = \<lparr>node = mkNode ''m'', attemptNumber = 0, world = Some [''k'' \<mapsto> ''v'']\<rparr>,
          scoredSemanticMatchRules =
            [\<lparr>scoredCandidates_of =
                [\<lparr>candidate = positive ''yes'', score = Some 0.9, topScore = True\<rparr>],
              rule_of = \<lparr>matchCandidates = [positive ''yes'']\<rparr>, chosen = True\<rparr>],
          edge = Some semanticMutEdge,
          rule = Some (SEMANTIC_MATCH \<lparr>matchCandidates = [positive ''yes'']\<rparr>)\<rparr>"
  by (simp add: sample_defs eval_defs)

text \<open>
  C3. The fallback scan is meant to see only the edges that pass their conditions in
  the current world. \<open>getRepeatedFailEdges\<close> asks for the outgoing edges without a
  world: the edge guarded by Require(k, v) is not an outgoing edge in the empty world,
  and \<open>evaluate\<close> in that world still takes it as the fallback.
\<close>

theorem C3_fallback_ignores_conditions:
  "getOutEdges (mkNode ''start'') (mkGraph [''start'', ''m''] [fallbackCondEdge])
     (Some Map.empty) = []
   \<and> evaluate (tableScorer 0.75 []) (mkGraph [''start'', ''m''] [fallbackCondEdge]) ''hello''
       (startState (Some Map.empty))
   = Inr \<lparr>state = \<lparr>node = mkNode ''m'', attemptNumber = 0, world = Some Map.empty\<rparr>,
          scoredSemanticMatchRules = [], edge = Some fallbackCondEdge,
          rule = Some (failAfter 1)\<rparr>"
  by (simp add: sample_defs eval_defs)

lemma filter_single_sub:
  assumes "filter P xs = [e]"
  shows "filter (\<lambda>x. P x \<and> Q x) xs = (if Q e then [e] else [])"
proof -
  have "filter (\<lambda>x. P x \<and> Q x) xs = filter Q (filter P xs)"
    by (simp add: conj_commute)
  then show ?thesis using assms by simp
qed

text \<open>
  One call at a node whose only outgoing edge has a single repeated-fail rule: the
  result counts the attempt first and compares the count with \<open>failCount\<close>.
\<close>

lemma evaluate_single_fallback:
  assumes rdy: "ready sms"
    and only: "filter (\<lambda>x. id_node (source x) = id_node n) (edges g) = [e]"
    and one: "rules e = [REPEATED_FAIL d]"
  shows "evaluate sms g u \<lparr>node = n, attemptNumber = a, world = w\<rparr> =
     Inr (if failCount d \<le> a + 1
          then \<lparr>state = \<lparr>node = target e, attemptNumber = 0, world = w\<rparr>,
                scoredSemanticMatchRules = [], edge = Some e, rule = Some (REPEATED_FAIL d)\<rparr>
          else \<lparr>state = \<lparr>node = n, attemptNumber = a + 1, world = w\<rparr>,
                scoredSemanticMatchRules = [], edge = None, rule = None\<rparr>)"
proof -
  have ex: "examined (getOutEdges n g w) = []"
    unfolding getOutEdges_def filter_single_sub [OF only]
    by (simp add: examined_def one)
  have rf: "getRepeatedFailEdges n g = [e]"
    unfolding getRepeatedFailEdges_def getOutEdges_def filter_single_sub [OF only]
    by (simp add: passedConditions_def isRepeatedFail_def one)
  show ?thesis
    by (simp add: evaluate_def rdy scanEdges_flat ex rf initScan_def one takeFallback_def)
qed

text \<open>
  C4 (as amended). In a session that starts with attemptNumber 0 at a node whose only
  outgoing edge carries a single repeated-fail rule with failCount 3, the first two
  calls produce no transition (attemptNumber becomes 1, then 2) and the third call
  transitions by the fallback edge and resets attemptNumber; a call transitions exactly
  when its incoming attemptNumber plus one has reached failCount.
\<close>

theorem C4_fallback_fires_on_third_call:
  assumes "ready sms"
    and "filter (\<lambda>x. id_node (source x) = id_node n) (edges g) = [e]"
    and "rules e = [REPEATED_FAIL d]"
    and "failCount d = 3"
  shows "evaluate sms g u1 \<lparr>node = n, attemptNumber = 0, world = w\<rparr> =
       Inr \<lparr>state = \<lparr>node = n, attemptNumber = 1, world = w\<rparr>,
            scoredSemanticMatchRules = [], edge = None, rule = None\<rparr>
     \<and> evaluate sms g u2 \<lparr>node = n, attemptNumber = 1, world = w\<rparr> =
       Inr \<lparr>state = \<lparr>node = n, attemptNumber = 2, world = w\<rparr>,
            scoredSemanticMatchRules = [], edge = None, rule = None\<rparr>
     \<and> evaluate sms g u3 \<lparr>node = n, attemptNumber = 2, world = w\<rparr> =
       Inr \<lparr>state = \<lparr>node = target e, attemptNumber = 0, world = w\<rparr>,
            scoredSemanticMatchRules = [], edge = Some e, rule = Some (REPEATED_FAIL d)\<rparr>
     \<and> (\<forall>a. \<exists>res. evaluate sms g u \<lparr>node = n, attemptNumber = a, world = w\<rparr> = Inr res
            \<and> (edge res = Some e \<longleftrightarrow> failCount d \<le> a + 1)
            \<and> (edge res = None \<longleftrightarrow> a + 1 < failCount d))"
  using assms by (simp add: evaluate_single_fallback)

theorem C4_fallback_fires_on_third_call_witness:
  "evaluate (tableScorer 0.75 []) (mkGraph [''start'', ''m''] [fallback3Edge]) ''one''
      \<lparr>node = mkNode ''start'', attemptNumber = 0, world = Some Map.empty\<rparr> =
     Inr \<lparr>state = \<lparr>node = mkNode ''start'', attemptNumber = 1, world = Some Map.empty\<rparr>,
          scoredSemanticMatchRules = [], edge = None, rule = None\<rparr>
   \<and> evaluate (tableScorer 0.75 []) (mkGraph [''start'', ''m''] [fallback3Edge]) ''three''
      \<lparr>node = mkNode ''start'', attemptNumber = 2, world = Some Map.empty\<rparr> =
     Inr \<lparr>state = \<lparr>node = mkNode ''m'', attemptNumber = 0, world = Some Map.empty\<rparr>,
          scoredSemanticMatchRules = [], edge = Some fallback3Edge,
          rule = Some (failAfter 3)\<rparr>"
proof -
  have r: "ready (tableScorer 0.75 [])"
    by (simp add: tableScorer_def)
  have f: "filter (\<lambda>x. id_node (source x) = id_node (mkNode ''start''))
             (edges (mkGraph [''start'', ''m''] [fallback3Edge])) = [fallback3Edge]"
    by (simp add: sample_defs)
  have o: "rules fallback3Edge = [REPEATED_FAIL \<lparr>failMessage = None, failCount = 3\<rparr>]"
    by (simp add: sample_defs)
  have c: "failCount \<lparr>failMessage = None, failCount = 3\<rparr> = 3"
    by simp
  show ?thesis
    using C4_fallback_fires_on_third_call [OF r f o c, of "''one''" "Some Map.empty" _ "''three''"]
    by (simp add: sample_defs)
qed

text \<open>
  The claim as written fails: of the first three calls of such a session, the third
  already transitions.
\<close>

theorem C4_third_call_counterexample:
  "evaluate (tableScorer 0.75 []) (mkGraph [''start'', ''m''] [fallback3Edge]) ''a''
      \<lparr>node = mkNode ''start'', attemptNumber = 0, world = None\<rparr> =
     Inr \<lparr>state = \<lparr>node = mkNode ''start'', attemptNumber = 1, world = None\<rparr>,
          scoredSemanticMatchRules = [], edge = None, rule = None\<rparr>
   \<and> evaluate (tableScorer 0.75 []) (mkGraph [''start'', ''m''] [fallback3Edge]) ''b''
      \<lparr>node = mkNode ''start'', attemptNumber = 1, world = None\<rparr> =
     Inr \<lparr>state = \<lparr>node = mkNode ''start'', attemptNumber = 2, world = None\<rparr>,
          scoredSemanticMatchRules = [], edge = None, rule = None\<rparr>
   \<and> evaluate (tableScorer 0.75 []) (mkGraph [''start'', ''m''] [fallback3Edge]) ''c''
      \<lparr>node = mkNode ''start'', attemptNumber = 2, world = None\<rparr> =
     Inr \<lparr>state = \<lparr>node = mkNode ''m'', attemptNumber = 0, world = None\<rparr>,
          scoredSemanticMatchRules = [], edge = Some fallback3Edge,
          rule = Some (failAfter 3)\<rparr>"
  by (simp add: sample_defs eval_defs)

section \<open>Edge names\<close>

lemma firstSemanticRule_find:
  "firstSemanticRule rs =
     (case List.find isSemanticMatch rs of Some (SEMANTIC_MATCH d) \<Rightarrow> Some d | _ \<Rightarrow> None)"
  by (induction rs rule: firstSemanticRule.induct) auto

lemma firstPositiveExample_find:
  "firstPositiveExample cs = map_option text_of (List.find (\<lambda>c. \<not> isAnti c) cs)"
  by (induction cs) auto

text \<open>
  C7 (as amended). For every edge, \<open>getEdgeName\<close> looks at the edge's first
  semantic-match rule and returns the text of that rule's first candidate that is not
  an anti-example; when the rule has no such candidate it returns the empty string.
  It returns null only for an edge without a semantic-match rule.
\<close>

theorem C7_edge_name:
  "getEdgeName e =
     (case List.find isSemanticMatch (rules e) of
        Some (SEMANTIC_MATCH d) \<Rightarrow>
          (case List.find (\<lambda>c. \<not> isAnti c) (matchCandidates d) of
             None \<Rightarrow> Some ''''
           | Some c \<Rightarrow> Some (text_of c))
      | _ \<Rightarrow> None)"
  by (simp add: getEdgeName_def firstSemanticRule_find firstPositiveExample_find orEmpty_def
      split: option.split EdgeRule.split)

text \<open>
  The claim as written fails: for a rule whose only candidate is an anti-example the
  name is the empty string, not null.
\<close>

theorem C7_no_positive_candidate_counterexample:
  "getEdgeName (mkEdge ''start'' ''m'' [SEMANTIC_MATCH \<lparr>matchCandidates = [negative ''no'']\<rparr>])
     = Some ''''"
  by (simp add: getEdgeName_def mkEdge_def negative_def isAnti_def orEmpty_def)

section \<open>Scoring one rule\<close>

lemma jsIndex_nat: "jsIndex xs (int i) = (if i < length xs then Some (xs ! i) else None)"
  by (simp add: jsIndex_def)

lemma upt_shift_map: "map f [0..<Suc n] = f 0 # map (\<lambda>j. f (Suc j)) [0..<n]"
  by (simp add: upt_rec [of 0] map_Suc_upt [symmetric] del: upt_Suc)

text \<open>The scored candidates that the loop pushes do not depend on the running maximum.\<close>

lemma scoreLoop_scored:
  "fst (scoreLoop cs scores i (scored, mi, ms, mp)) =
     scored @ map (\<lambda>j. \<lparr>candidate = cs ! j, score = jsIndex scores (int (i + j)),
                          topScore = False\<rparr>) [0..<length cs]"
proof (induction cs arbitrary: i scored mi ms mp)
  case Nil
  then show ?case by simp
next
  case (Cons c cs)
  show ?case
    by (simp add: Cons.IH Let_def upt_shift_map ac_simps split: option.split del: upt_Suc)
qed







section \<open>Errors of one rule abort the evaluation\<close>

text \<open>
  The running maximum whatever the length of the score list: either no score read for
  the remaining candidates exceeds the incoming maximum and nothing moves, or one
  does and the index ends on one of the remaining candidates.
\<close>

lemma scoreLoop_index:
  "(case scoreLoop cs scores i (scored, mi, ms, mp) of (scored', mi', ms', mp') \<Rightarrow>
     ((\<forall>j<length cs. i + j < length scores \<longrightarrow> scores ! (i + j) \<le> ms)
        \<and> mi' = mi \<and> ms' = ms \<and> mp' = mp)
     \<or> ((\<exists>j<length cs. i + j < length scores \<and> ms < scores ! (i + j))
        \<and> int i \<le> mi' \<and> mi' < int (i + length cs)))"
proof (induction cs arbitrary: i scored mi ms mp)
  case Nil
  then show ?case by simp
next
  case (Cons c cs)
  let ?sc = "jsIndex scores (int i)"
  let ?scored = "scored @ [\<lparr>candidate = c, score = ?sc, topScore = False\<rparr>]"
  show ?case
  proof (cases "i < length scores \<and> ms < scores ! i")
    case True
    obtain sc' mi' ms' mp' where
      r: "scoreLoop cs scores (Suc i) (?scored, int i, scores ! i, \<not> isAnti c) = (sc', mi', ms', mp')"
      by (metis prod_cases4)
    have eq: "scoreLoop (c # cs) scores i (scored, mi, ms, mp) = (sc', mi', ms', mp')"
      using True r by (simp add: jsIndex_nat)
    from Cons.IH [where i = "Suc i" and scored = ?scored and mi = "int i" and ms = "scores ! i"
        and mp = "\<not> isAnti c"] r
    have "mi' = int i \<or> (int (Suc i) \<le> mi' \<and> mi' < int (Suc i + length cs))"
      by auto
    then have "int i \<le> mi' \<and> mi' < int (i + length (c # cs))"
      by auto
    moreover have "\<exists>j<length (c # cs). i + j < length scores \<and> ms < scores ! (i + j)"
      using True by (intro exI [of _ 0]) simp
    ultimately show ?thesis
      unfolding eq by simp
  next
    case False
    obtain sc' mi' ms' mp' where
      r: "scoreLoop cs scores (Suc i) (?scored, mi, ms, mp) = (sc', mi', ms', mp')"
      by (metis prod_cases4)
    have eq: "scoreLoop (c # cs) scores i (scored, mi, ms, mp) = (sc', mi', ms', mp')"
      using False r by (auto simp: jsIndex_nat)
    from Cons.IH [where i = "Suc i" and scored = ?scored and mi = mi and ms = ms and mp = mp] r
    consider "\<forall>j<length cs. Suc i + j < length scores \<longrightarrow> scores ! (Suc i + j) \<le> ms"
        "mi' = mi" "ms' = ms" "mp' = mp"
      | "\<exists>j<length cs. Suc i + j < length scores \<and> ms < scores ! (Suc i + j)"
        "int (Suc i) \<le> mi'" "mi' < int (Suc i + length cs)"
      by auto
    then show ?thesis
    proof cases
      case 1
      have "\<forall>j<length (c # cs). i + j < length scores \<longrightarrow> scores ! (i + j) \<le> ms"
        using 1(1) False by (auto simp: less_Suc_eq_0_disj not_less)
      then show ?thesis
        unfolding eq using 1 by simp
    next
      case 2
      have "\<exists>j<length (c # cs). i + j < length scores \<and> ms < scores ! (i + j)"
        using 2(1) by (auto simp: less_Suc_eq_0_disj)
      moreover have "int i \<le> mi' \<and> mi' < int (i + length (c # cs))"
        using 2(2,3) by simp
      ultimately show ?thesis
        unfolding eq by simp
    qed
  qed
qed

lemma scoreLoop_length:
  "length (fst (scoreLoop cs scores i (scored, mi, ms, mp))) = length scored + length cs"
  by (simp add: scoreLoop_scored)

text \<open>No score above -1 among those read for the candidates: the call throws.\<close>

lemma checkSemanticMatchRule_throws:
  assumes "matchCandidates r \<noteq> []"
    and "\<forall>s\<in>set (take (length (matchCandidates r)) (scoresFor sms u r)). s \<le> -1"
  shows "checkSemanticMatchRule sms u r = Inl TypeError"
proof -
  let ?cs = "matchCandidates r" and ?scores = "scoresFor sms u r"
  obtain sc' mi' ms' mp' where
    r: "scoreLoop ?cs ?scores 0 ([], -1, -1, False) = (sc', mi', ms', mp')"
    by (metis prod_cases4)
  have "\<not> (\<exists>j<length ?cs. 0 + j < length ?scores \<and> -1 < ?scores ! (0 + j))"
  proof
    assume "\<exists>j<length ?cs. 0 + j < length ?scores \<and> -1 < ?scores ! (0 + j)"
    then obtain j where j: "j < length ?cs" "j < length ?scores" "-1 < ?scores ! j"
      by auto
    then have "?scores ! j \<in> set (take (length ?cs) ?scores)"
      by (metis in_set_conv_nth length_take min_less_iff_conj nth_take)
    then show False
      using assms(2) j(3) by fastforce
  qed
  then have "mi' = -1"
    using scoreLoop_index [where cs = ?cs and scores = ?scores and i = 0 and scored = "[]"
        and mi = "-1" and ms = "-1" and mp = False] r
    by auto
  then show ?thesis
    using assms(1) r [unfolded scoresFor_def]
    by (simp add: checkSemanticMatchRule_def markTopScore_def jsIndex_def)
qed

text \<open>A rule without candidates, or with a score above -1 among those read: it returns.\<close>

lemma checkSemanticMatchRule_returns:
  assumes "scorable sms u r"
  shows "\<exists>res. checkSemanticMatchRule sms u r = Inr res"
proof (cases "matchCandidates r = []")
  case True
  then show ?thesis
    by (simp add: checkSemanticMatchRule_def)
next
  case False
  let ?cs = "matchCandidates r" and ?scores = "scoresFor sms u r"
  obtain sc' mi' ms' mp' where
    r: "scoreLoop ?cs ?scores 0 ([], -1, -1, False) = (sc', mi', ms', mp')"
    by (metis prod_cases4)
  have len: "length sc' = length ?cs"
    using scoreLoop_length [of ?cs ?scores 0 "[]"] r
    by (metis fst_conv list.size(3) add_0)
  from assms False obtain s where "s \<in> set (take (length ?cs) ?scores)" "-1 < s"
    unfolding scorable_def by blast
  then obtain j where "j < length ?cs" "j < length ?scores" "-1 < ?scores ! j"
    by (auto simp: in_set_conv_nth)
  then have "\<not> (\<forall>j<length ?cs. 0 + j < length ?scores \<longrightarrow> ?scores ! (0 + j) \<le> -1)"
    by force
  then have "0 \<le> mi' \<and> mi' < int (length ?cs)"
    using scoreLoop_index [where cs = ?cs and scores = ?scores and i = 0 and scored = "[]"
        and mi = "-1" and ms = "-1" and mp = False] r
    by auto
  then have "nat mi' < length sc'"
    using len by linarith
  then have "\<exists>c. jsIndex sc' mi' = Some c"
    using \<open>0 \<le> mi' \<and> mi' < int (length ?cs)\<close> by (simp add: jsIndex_def)
  then show ?thesis
    using False r [unfolded scoresFor_def]
    by (auto simp: checkSemanticMatchRule_def markTopScore_def)
qed

text \<open>The base class of the scorers is not ready, and would score no rule if it were.\<close>

lemma baseService_evaluate: "evaluate baseService g u st = Inl NotReady"
  by (simp add: evaluate_def baseService_def)

lemma baseService_check:
  "matchCandidates r \<noteq> [] \<Longrightarrow> checkSemanticMatchRule baseService u r = Inl TypeError"
  by (rule checkSemanticMatchRule_throws) (simp_all add: scoresFor_def baseService_def)

lemma checkSemanticMatchRule_error:
  "checkSemanticMatchRule sms u d = Inl err \<Longrightarrow> err = TypeError"
  by (auto simp: checkSemanticMatchRule_def markTopScore_def
      split: if_splits prod.splits sum.splits option.splits)

lemma scanFlat_error: "scanFlat sms u xs st = Inl err \<Longrightarrow> err = TypeError"
  by (induction xs arbitrary: st)
     (auto split: sum.splits dest: checkSemanticMatchRule_error)

lemma scanFlat_fails:
  assumes "x \<in> set xs" and "checkSemanticMatchRule sms u (snd x) = Inl TypeError"
  shows "scanFlat sms u xs st = Inl TypeError"
proof -
  have "\<exists>err. scanFlat sms u xs st = Inl err"
    using assms by (induction xs arbitrary: st) (auto split: sum.splits)
  then show ?thesis
    using scanFlat_error by blast
qed

lemma scanFlat_returns:
  assumes "\<forall>x\<in>set xs. \<exists>res. checkSemanticMatchRule sms u (snd x) = Inr res"
  shows "\<exists>st'. scanFlat sms u xs st = Inr st'"
  using assms by (induction xs arbitrary: st) auto

lemma set_semanticRules: "set (semanticRules rs) = {d. SEMANTIC_MATCH d \<in> set rs}"
  by (induction rs rule: semanticRules.induct) auto

lemma in_examined:
  "(e, d) \<in> set (examined es) \<longleftrightarrow> e \<in> set es \<and> SEMANTIC_MATCH d \<in> set (rules e)"
  by (auto simp: examined_def set_semanticRules)

text \<open>
  C10. For a semantic-match rule with a non-empty candidate list, whenever every score
  that the scorer returns is at most -1, \<open>checkSemanticMatchRule\<close> throws: the running
  maximum index is still -1 and the top-score flag is set on an undefined element. The
  throw aborts every evaluation that examines the rule, that is, every evaluation with
  a ready scorer at a node that has the rule on an outgoing edge passing its conditions.
\<close>

theorem C10_scores_at_most_minus_one:
  assumes "matchCandidates r \<noteq> []"
    and "\<forall>s\<in>set (scoresFor sms u r). s \<le> -1"
  shows "checkSemanticMatchRule sms u r = Inl TypeError
     \<and> (ready sms \<and> e \<in> set (getOutEdges (node st) g (world st))
          \<and> SEMANTIC_MATCH r \<in> set (rules e)
        \<longrightarrow> evaluate sms g u st = Inl TypeError)"
proof -
  have "\<forall>s\<in>set (take (length (matchCandidates r)) (scoresFor sms u r)). s \<le> -1"
    using assms(2) by (meson in_set_takeD)
  with assms(1) have thr: "checkSemanticMatchRule sms u r = Inl TypeError"
    by (rule checkSemanticMatchRule_throws)
  have "evaluate sms g u st = Inl TypeError"
    if rdy: "ready sms" and e: "e \<in> set (getOutEdges (node st) g (world st))"
      and r: "SEMANTIC_MATCH r \<in> set (rules e)"
  proof -
    have "(e, r) \<in> set (examined (getOutEdges (node st) g (world st)))"
      using e r by (simp add: in_examined)
    moreover have "checkSemanticMatchRule sms u (snd (e, r)) = Inl TypeError"
      using thr by simp
    ultimately have "scanFlat sms u (examined (getOutEdges (node st) g (world st))) initScan
        = Inl TypeError"
      by (rule scanFlat_fails)
    then show ?thesis
      by (simp add: evaluate_def rdy scanEdges_flat)
  qed
  with thr show ?thesis by blast
qed

theorem C10_scores_at_most_minus_one_witness:
  "evaluate (tableScorer 0.75 [(''a'', -1)])
     (mkGraph [''start'', ''m'']
        [mkEdge ''start'' ''m'' [SEMANTIC_MATCH \<lparr>matchCandidates = [positive ''a'']\<rparr>]])
     ''hello'' (startState None) = Inl TypeError"
proof -
  let ?sms = "tableScorer 0.75 [(''a'', -1)]"
  let ?r = "\<lparr>matchCandidates = [positive ''a'']\<rparr>"
  let ?e = "mkEdge ''start'' ''m'' [SEMANTIC_MATCH ?r]"
  let ?g = "mkGraph [''start'', ''m''] [?e]"
  have sc: "scoresFor ?sms ''hello'' ?r = [-1]"
    by (simp add: scoresFor_def tableScorer_def positive_def)
  have h1: "matchCandidates ?r \<noteq> []"
    by simp
  have h3: "\<forall>s\<in>set (scoresFor ?sms ''hello'' ?r). s \<le> -1"
    using sc by simp
  have h4: "ready ?sms"
    by (simp add: tableScorer_def)
  have h5: "?e \<in> set (getOutEdges (node (startState None)) ?g (world (startState None)))"
    by (simp add: getOutEdges_def mkGraph_def mkEdge_def startState_def passedConditions_def)
  have h6: "SEMANTIC_MATCH ?r \<in> set (rules ?e)"
    by (simp add: mkEdge_def)
  show ?thesis
    using C10_scores_at_most_minus_one [OF h1 h3, of ?e "startState None" ?g] h4 h5 h6
    by blast
qed

section \<open>The winner of the semantic scan\<close>

lemma recordRule_fields:
  "semanticMatchRuleIndex (recordRule sms e d res st) = semanticMatchRuleIndex st + 1"
  "map chosen (scoredRules (recordRule sms e d res st)) = map chosen (scoredRules st) @ [False]"
  by (simp_all add: recordRule_def Let_def split: option.split)

lemma recordRule_taken:
  assumes "maxScore res = Some t" and "getThreshold sms < t" and "bestScore st < t"
    and "0 \<le> bestScore st"
  shows "bestScore (recordRule sms e d res st) = t"
    and "bestEdge (recordRule sms e d res st) = Some e"
    and "bestRule (recordRule sms e d res st) = Some (SEMANTIC_MATCH d)"
    and "bestSemanticMatchRuleIndex (recordRule sms e d res st) = semanticMatchRuleIndex st + 1"
  using assms by (simp_all add: recordRule_def Let_def)

lemma recordRule_kept:
  assumes "\<forall>t. maxScore res = Some t \<and> getThreshold sms < t \<longrightarrow> t \<le> bestScore st"
  shows "bestScore (recordRule sms e d res st) = bestScore st"
    and "bestEdge (recordRule sms e d res st) = bestEdge st"
    and "bestRule (recordRule sms e d res st) = bestRule st"
    and "bestSemanticMatchRuleIndex (recordRule sms e d res st) = bestSemanticMatchRuleIndex st"
  using assms by (auto simp: recordRule_def Let_def split: option.split)

lemma scanFlat_counts:
  assumes "scanFlat sms u xs st = Inr st'"
  shows "semanticMatchRuleIndex st' = semanticMatchRuleIndex st + int (length xs)
     \<and> map chosen (scoredRules st') = map chosen (scoredRules st) @ replicate (length xs) False"
  using assms
proof (induction xs arbitrary: st)
  case Nil
  then show ?case by simp
next
  case (Cons x xs)
  then obtain res where res: "checkSemanticMatchRule sms u (snd x) = Inr res"
    and rest: "scanFlat sms u xs (recordRule sms (fst x) (snd x) res st) = Inr st'"
    by (auto split: sum.splits)
  show ?case
    using Cons.IH [OF rest] by (simp add: recordRule_fields replicate_app_Cons_same)
qed

text \<open>
  The best rule after the scan of \<open>xs\<close>: either no qualifying score above the threshold
  exceeds the incoming best, which is kept, or the scan ends on the first position that
  attains the greatest such score.
\<close>

lemma scanFlat_best:
  assumes "scanFlat sms u xs st = Inr st'" and "0 \<le> bestScore st"
  shows "((\<forall>j<length xs. \<forall>t. qualifying sms u (snd (xs ! j)) = Some t \<and> getThreshold sms < t
              \<longrightarrow> t \<le> bestScore st)
          \<and> bestScore st' = bestScore st \<and> bestEdge st' = bestEdge st
          \<and> bestRule st' = bestRule st
          \<and> bestSemanticMatchRuleIndex st' = bestSemanticMatchRuleIndex st)
       \<or> (\<exists>k<length xs. \<exists>s. qualifying sms u (snd (xs ! k)) = Some s \<and> getThreshold sms < s
            \<and> bestScore st < s \<and> bestScore st' = s \<and> bestEdge st' = Some (fst (xs ! k))
            \<and> bestRule st' = Some (SEMANTIC_MATCH (snd (xs ! k)))
            \<and> bestSemanticMatchRuleIndex st' = semanticMatchRuleIndex st + 1 + int k
            \<and> (\<forall>j<length xs. \<forall>t. qualifying sms u (snd (xs ! j)) = Some t
                   \<and> getThreshold sms < t \<longrightarrow> t \<le> s)
            \<and> (\<forall>j<k. \<forall>t. qualifying sms u (snd (xs ! j)) = Some t
                   \<and> getThreshold sms < t \<longrightarrow> t < s))"
  using assms
proof (induction xs arbitrary: st)
  case Nil
  then show ?case by simp
next
  case (Cons x xs)
  let ?q = "\<lambda>y. qualifying sms u (snd y)"
  let ?thr = "getThreshold sms"
  from Cons.prems(1) obtain res where res: "checkSemanticMatchRule sms u (snd x) = Inr res"
    and rest: "scanFlat sms u xs (recordRule sms (fst x) (snd x) res st) = Inr st'"
    by (auto split: sum.splits)
  let ?st1 = "recordRule sms (fst x) (snd x) res st"
  have qx: "?q x = maxScore res"
    by (simp add: qualifying_def res)
  show ?case
  proof (cases "\<exists>t. maxScore res = Some t \<and> ?thr < t \<and> bestScore st < t")
    case True
    then obtain t where t: "maxScore res = Some t" "?thr < t" "bestScore st < t"
      by blast
    note tk = recordRule_taken [OF t Cons.prems(2), of "fst x" "snd x"]
    have nonneg: "0 \<le> bestScore ?st1"
      using tk(1) t(3) Cons.prems(2) by simp
    from Cons.IH [OF rest nonneg]
    consider (same) "\<forall>j<length xs. \<forall>t'. ?q (xs ! j) = Some t' \<and> ?thr < t' \<longrightarrow> t' \<le> t"
        "bestScore st' = t" "bestEdge st' = Some (fst x)"
        "bestRule st' = Some (SEMANTIC_MATCH (snd x))"
        "bestSemanticMatchRuleIndex st' = semanticMatchRuleIndex st + 1"
      | (later) k s where "k < length xs" "?q (xs ! k) = Some s" "?thr < s" "t < s"
        "bestScore st' = s" "bestEdge st' = Some (fst (xs ! k))"
        "bestRule st' = Some (SEMANTIC_MATCH (snd (xs ! k)))"
        "bestSemanticMatchRuleIndex st' = semanticMatchRuleIndex st + 1 + 1 + int k"
        "\<forall>j<length xs. \<forall>t'. ?q (xs ! j) = Some t' \<and> ?thr < t' \<longrightarrow> t' \<le> s"
        "\<forall>j<k. \<forall>t'. ?q (xs ! j) = Some t' \<and> ?thr < t' \<longrightarrow> t' < s"
      unfolding tk recordRule_fields by blast
    then show ?thesis
    proof cases
      case same
      have a: "\<forall>j<length (x # xs). \<forall>t'. ?q ((x # xs) ! j) = Some t' \<and> ?thr < t' \<longrightarrow> t' \<le> t"
        using same(1) qx t(1) by (auto simp: less_Suc_eq_0_disj)
      have "0 < length (x # xs) \<and> ?q ((x # xs) ! 0) = Some t \<and> ?thr < t \<and> bestScore st < t
          \<and> bestScore st' = t \<and> bestEdge st' = Some (fst ((x # xs) ! 0))
          \<and> bestRule st' = Some (SEMANTIC_MATCH (snd ((x # xs) ! 0)))
          \<and> bestSemanticMatchRuleIndex st' = semanticMatchRuleIndex st + 1 + int 0
          \<and> (\<forall>j<length (x # xs). \<forall>t'. ?q ((x # xs) ! j) = Some t' \<and> ?thr < t' \<longrightarrow> t' \<le> t)
          \<and> (\<forall>j<0. \<forall>t'. ?q ((x # xs) ! j) = Some t' \<and> ?thr < t' \<longrightarrow> t' < t)"
        using same t qx a by simp
      then show ?thesis by blast
    next
      case later
      have a: "\<forall>j<length (x # xs). \<forall>t'. ?q ((x # xs) ! j) = Some t' \<and> ?thr < t' \<longrightarrow> t' \<le> s"
        using later(9) later(4) qx t(1) by (auto simp: less_Suc_eq_0_disj)
      have b: "\<forall>j<Suc k. \<forall>t'. ?q ((x # xs) ! j) = Some t' \<and> ?thr < t' \<longrightarrow> t' < s"
        using later(10) later(4) qx t(1) by (auto simp: less_Suc_eq_0_disj)
      have "Suc k < length (x # xs) \<and> ?q ((x # xs) ! Suc k) = Some s \<and> ?thr < s
          \<and> bestScore st < s
          \<and> bestScore st' = s \<and> bestEdge st' = Some (fst ((x # xs) ! Suc k))
          \<and> bestRule st' = Some (SEMANTIC_MATCH (snd ((x # xs) ! Suc k)))
          \<and> bestSemanticMatchRuleIndex st' = semanticMatchRuleIndex st + 1 + int (Suc k)
          \<and> (\<forall>j<length (x # xs). \<forall>t'. ?q ((x # xs) ! j) = Some t' \<and> ?thr < t' \<longrightarrow> t' \<le> s)
          \<and> (\<forall>j<Suc k. \<forall>t'. ?q ((x # xs) ! j) = Some t' \<and> ?thr < t' \<longrightarrow> t' < s)"
        using later t(3) a b by simp
      then show ?thesis by blast
    qed
  next
    case False
    then have le: "\<forall>t. maxScore res = Some t \<and> ?thr < t \<longrightarrow> t \<le> bestScore st"
      by (meson not_le)
    note kp = recordRule_kept [OF le, of "fst x" "snd x"]
    have nonneg: "0 \<le> bestScore ?st1"
      using kp(1) Cons.prems(2) by simp
    from Cons.IH [OF rest nonneg]
    consider (same) "\<forall>j<length xs. \<forall>t'. ?q (xs ! j) = Some t' \<and> ?thr < t' \<longrightarrow> t' \<le> bestScore st"
        "bestScore st' = bestScore st" "bestEdge st' = bestEdge st"
        "bestRule st' = bestRule st"
        "bestSemanticMatchRuleIndex st' = bestSemanticMatchRuleIndex st"
      | (later) k s where "k < length xs" "?q (xs ! k) = Some s" "?thr < s" "bestScore st < s"
        "bestScore st' = s" "bestEdge st' = Some (fst (xs ! k))"
        "bestRule st' = Some (SEMANTIC_MATCH (snd (xs ! k)))"
        "bestSemanticMatchRuleIndex st' = semanticMatchRuleIndex st + 1 + 1 + int k"
        "\<forall>j<length xs. \<forall>t'. ?q (xs ! j) = Some t' \<and> ?thr < t' \<longrightarrow> t' \<le> s"
        "\<forall>j<k. \<forall>t'. ?q (xs ! j) = Some t' \<and> ?thr < t' \<longrightarrow> t' < s"
      unfolding kp recordRule_fields by blast
    then show ?thesis
    proof cases
      case same
      have "\<forall>j<length (x # xs). \<forall>t'. ?q ((x # xs) ! j) = Some t' \<and> ?thr < t'
              \<longrightarrow> t' \<le> bestScore st"
        using same(1) qx le by (auto simp: less_Suc_eq_0_disj)
      then show ?thesis using same by blast
    next
      case later
      have a: "\<forall>j<length (x # xs). \<forall>t'. ?q ((x # xs) ! j) = Some t' \<and> ?thr < t' \<longrightarrow> t' \<le> s"
        using later(9) later(4) qx le by (fastforce simp: less_Suc_eq_0_disj)
      have b: "\<forall>j<Suc k. \<forall>t'. ?q ((x # xs) ! j) = Some t' \<and> ?thr < t' \<longrightarrow> t' < s"
        using later(10) later(4) qx le by (fastforce simp: less_Suc_eq_0_disj)
      have "Suc k < length (x # xs) \<and> ?q ((x # xs) ! Suc k) = Some s \<and> ?thr < s
          \<and> bestScore st < s
          \<and> bestScore st' = s \<and> bestEdge st' = Some (fst ((x # xs) ! Suc k))
          \<and> bestRule st' = Some (SEMANTIC_MATCH (snd ((x # xs) ! Suc k)))
          \<and> bestSemanticMatchRuleIndex st' = semanticMatchRuleIndex st + 1 + int (Suc k)
          \<and> (\<forall>j<length (x # xs). \<forall>t'. ?q ((x # xs) ! j) = Some t' \<and> ?thr < t' \<longrightarrow> t' \<le> s)
          \<and> (\<forall>j<Suc k. \<forall>t'. ?q ((x # xs) ! j) = Some t' \<and> ?thr < t' \<longrightarrow> t' < s)"
        using later a b by simp
      then show ?thesis by blast
    qed
  qed
qed

lemma failRules_keeps:
  "scoredSemanticMatchRules (failRules e rs res) = scoredSemanticMatchRules res
   \<and> ((\<forall>d. rule res \<noteq> Some (SEMANTIC_MATCH d))
        \<longrightarrow> (\<forall>d. rule (failRules e rs res) \<noteq> Some (SEMANTIC_MATCH d)))"
  by (induction e rs res rule: failRules.induct) (auto simp: takeFallback_def)

lemma failEdges_keeps:
  "scoredSemanticMatchRules (failEdges es res) = scoredSemanticMatchRules res
   \<and> ((\<forall>d. rule res \<noteq> Some (SEMANTIC_MATCH d))
        \<longrightarrow> (\<forall>d. rule (failEdges es res) \<noteq> Some (SEMANTIC_MATCH d)))"
  by (induction es arbitrary: res) (auto simp: failRules_keeps)

lemma isWinner_unique:
  assumes "isWinner thr qs i" and "isWinner thr qs k"
  shows "i = k"
proof -
  from assms(1) obtain s where s: "i < length qs" "qs ! i = Some s" "thr < s"
    "\<forall>j<length qs. \<forall>t. qs ! j = Some t \<and> thr < t \<longrightarrow> t \<le> s"
    "\<forall>j<i. \<forall>t. qs ! j = Some t \<and> thr < t \<longrightarrow> t < s"
    unfolding isWinner_def by blast
  from assms(2) obtain s' where s': "k < length qs" "qs ! k = Some s'" "thr < s'"
    "\<forall>j<length qs. \<forall>t. qs ! j = Some t \<and> thr < t \<longrightarrow> t \<le> s'"
    "\<forall>j<k. \<forall>t. qs ! j = Some t \<and> thr < t \<longrightarrow> t < s'"
    unfolding isWinner_def by blast
  have "s' \<le> s" using s(4) s'(1,2,3) by blast
  moreover have "s \<le> s'" using s'(4) s(1,2,3) by blast
  ultimately have eq: "s = s'" by simp
  have "\<not> i < k" using s'(5) s(2,3) eq by blast
  moreover have "\<not> k < i" using s(5) s'(2,3) eq by blast
  ultimately show ?thesis by simp
qed

lemma markChosen_at:
  assumes "k < length scored" and "map chosen scored = replicate (length scored) False"
  shows "\<exists>scored'. markChosen scored (int k) = Inr scored'
     \<and> map chosen scored' = (replicate (length scored) False)[k := True]"
proof -
  have "map chosen (scored[k := (scored ! k)\<lparr>chosen := True\<rparr>])
      = (map chosen scored)[k := True]"
    by (simp add: map_update)
  then show ?thesis
    using assms by (simp add: markChosen_def jsIndex_def)
qed

text \<open>An examined rule that cannot be scored aborts the evaluation of a ready scorer.\<close>

lemma evaluate_aborts:
  assumes "ready sms" and "x \<in> set (examinedAt g st)" and "\<not> scorable sms u (snd x)"
  shows "evaluate sms g u st = Inl TypeError"
proof -
  have "matchCandidates (snd x) \<noteq> []"
    and "\<forall>s\<in>set (take (length (matchCandidates (snd x))) (scoresFor sms u (snd x))). s \<le> -1"
    using assms(3) by (auto simp: scorable_def not_less)
  then have "checkSemanticMatchRule sms u (snd x) = Inl TypeError"
    by (rule checkSemanticMatchRule_throws)
  with assms(2) have "scanFlat sms u (examinedAt g st) initScan = Inl TypeError"
    by (rule scanFlat_fails)
  then show ?thesis
    using assms(1) by (simp add: evaluate_def scanEdges_flat examinedAt_def)
qed

text \<open>
  Without the scoring of every examined rule there is no result to speak of: the first
  rule has the qualifying score 0.9 above the threshold 0.75, the second rule gets the
  single score -1, and the evaluation throws.
\<close>

lemma evaluate_aborts_despite_score:
  "evaluate (tableScorer 0.75 [(''yes'', 0.9), (''bad'', -1)])
     (mkGraph [''start'', ''a'', ''b'']
        [mkEdge ''start'' ''a'' [SEMANTIC_MATCH \<lparr>matchCandidates = [positive ''yes'']\<rparr>],
         mkEdge ''start'' ''b'' [SEMANTIC_MATCH \<lparr>matchCandidates = [positive ''bad'']\<rparr>]])
     ''yep'' (startState None) = Inl TypeError
   \<and> qualifying (tableScorer 0.75 [(''yes'', 0.9), (''bad'', -1)]) ''yep''
        \<lparr>matchCandidates = [positive ''yes'']\<rparr> = Some 0.9"
  by (simp add: sample_defs eval_defs qualifying_def)

text \<open>
  C6 (as amended). For every evaluation with a ready scorer in which every examined rule
  can be scored (the rule has no candidate, or a score above -1 is among the scores read
  for its candidates), the evaluation returns and, over the node's condition-filtered
  outgoing edges and with the threshold read from the scorer, the winner is the first
  rule (in edge-list order, then rule-list order) whose qualifying score is the greatest
  among the qualifying scores that are strictly above the threshold and strictly above
  0: that rule's edge and rule are returned and it alone is marked chosen. When no
  qualifying score is above both the threshold and 0 (in particular when the scores
  only equal the threshold), no semantic rule wins.
\<close>

theorem C6_semantic_winner:
  assumes "ready sms"
    and "\<forall>x\<in>set (examinedAt g st). scorable sms u (snd x)"
  shows "\<exists>res. evaluate sms g u st = Inr res
     \<and> (\<forall>i. isWinner (getThreshold sms) (qualifyingScores sms u g st) i \<longrightarrow>
            edge res = Some (fst (examinedAt g st ! i))
          \<and> rule res = Some (SEMANTIC_MATCH (snd (examinedAt g st ! i)))
          \<and> node (state res) = target (fst (examinedAt g st ! i))
          \<and> attemptNumber (state res) = 0
          \<and> map chosen (scoredSemanticMatchRules res)
              = (replicate (length (examinedAt g st)) False)[i := True])
     \<and> ((\<forall>i. \<not> isWinner (getThreshold sms) (qualifyingScores sms u g st) i) \<longrightarrow>
            (\<forall>r\<in>set (scoredSemanticMatchRules res). \<not> chosen r)
          \<and> (\<forall>d. rule res \<noteq> Some (SEMANTIC_MATCH d)))"
proof -
  let ?xs = "examinedAt g st" and ?thr = "getThreshold sms"
  let ?qs = "qualifyingScores sms u g st"
  note rdy = assms(1)
  have "\<forall>x\<in>set ?xs. \<exists>r. checkSemanticMatchRule sms u (snd x) = Inr r"
    using assms(2) checkSemanticMatchRule_returns by blast
  then obtain sc where sc: "scanFlat sms u ?xs initScan = Inr sc"
    using scanFlat_returns by blast
  have ev: "evaluate sms g u st =
      (let result = \<lparr>state = \<lparr>node = node st, attemptNumber = attemptNumber st + 1,
                              world = world st\<rparr>,
                     scoredSemanticMatchRules = scoredRules sc, edge = None, rule = None\<rparr>
       in case bestEdge sc of
            Some be \<Rightarrow>
              (case markChosen (scoredRules sc) (bestSemanticMatchRuleIndex sc) of
                 Inl err \<Rightarrow> Inl err
               | Inr scored' \<Rightarrow>
                   Inr \<lparr>state = \<lparr>node = target be, attemptNumber = 0,
                                 world = map_option (\<lambda>w. applyMutations w be) (world st)\<rparr>,
                        scoredSemanticMatchRules = scored',
                        edge = Some be, rule = bestRule sc\<rparr>)
          | None \<Rightarrow> Inr (failEdges (getRepeatedFailEdges (node (state result)) g) result))"
    using sc rdy by (simp add: evaluate_def scanEdges_flat examinedAt_def)
  from scanFlat_counts [OF sc]
  have flags: "map chosen (scoredRules sc) = replicate (length ?xs) False"
    by (simp add: initScan_def)
  then have len: "length (scoredRules sc) = length ?xs"
    by (metis length_map length_replicate)
  have qs: "\<And>j. j < length ?xs \<Longrightarrow> ?qs ! j = qualifying sms u (snd (?xs ! j))"
    by (simp add: qualifyingScores_def)
  have lq: "length ?qs = length ?xs"
    by (simp add: qualifyingScores_def)
  have "0 \<le> bestScore initScan"
    by (simp add: initScan_def)
  from scanFlat_best [OF sc this]
  consider (none) "\<forall>j<length ?xs. \<forall>t. qualifying sms u (snd (?xs ! j)) = Some t \<and> ?thr < t
                      \<longrightarrow> t \<le> 0"
      "bestEdge sc = None"
    | (best) k s where "k < length ?xs" "qualifying sms u (snd (?xs ! k)) = Some s" "?thr < s"
      "0 < s" "bestEdge sc = Some (fst (?xs ! k))"
      "bestRule sc = Some (SEMANTIC_MATCH (snd (?xs ! k)))"
      "bestSemanticMatchRuleIndex sc = int k"
      "\<forall>j<length ?xs. \<forall>t. qualifying sms u (snd (?xs ! j)) = Some t \<and> ?thr < t \<longrightarrow> t \<le> s"
      "\<forall>j<k. \<forall>t. qualifying sms u (snd (?xs ! j)) = Some t \<and> ?thr < t \<longrightarrow> t < s"
    by (auto simp: initScan_def)
  then show ?thesis
  proof cases
    case none
    have nowin: "\<not> isWinner ?thr ?qs i" for i
    proof
      assume "isWinner ?thr ?qs i"
      then obtain s where "i < length ?xs" "?qs ! i = Some s" "?thr < s" "0 < s"
        unfolding isWinner_def lq by blast
      then show False
        using none(1) qs by fastforce
    qed
    define res where "res = failEdges (getRepeatedFailEdges (node st) g)
        \<lparr>state = \<lparr>node = node st, attemptNumber = attemptNumber st + 1, world = world st\<rparr>,
         scoredSemanticMatchRules = scoredRules sc, edge = None, rule = None\<rparr>"
    have evr: "evaluate sms g u st = Inr res"
      using ev none(2) by (simp add: res_def)
    have "scoredSemanticMatchRules res = scoredRules sc"
      and "\<forall>d. rule res \<noteq> Some (SEMANTIC_MATCH d)"
      using failEdges_keeps by (simp_all add: res_def)
    moreover have "\<forall>r\<in>set (scoredRules sc). \<not> chosen r"
    proof
      fix r assume "r \<in> set (scoredRules sc)"
      then have "chosen r \<in> set (map chosen (scoredRules sc))"
        by simp
      then show "\<not> chosen r"
        unfolding flags by simp
    qed
    ultimately show ?thesis
      using nowin evr by simp
  next
    case (best k s)
    have win: "isWinner ?thr ?qs k"
      unfolding isWinner_def lq using best qs by auto
    obtain scored' where m: "markChosen (scoredRules sc) (int k) = Inr scored'"
      and fl: "map chosen scored' = (replicate (length ?xs) False)[k := True]"
      using markChosen_at [of k "scoredRules sc"] best(1) flags len by auto
    define res where "res = \<lparr>state = \<lparr>node = target (fst (?xs ! k)), attemptNumber = 0,
                    world = map_option (\<lambda>w. applyMutations w (fst (?xs ! k))) (world st)\<rparr>,
                  scoredSemanticMatchRules = scored',
                  edge = Some (fst (?xs ! k)),
                  rule = Some (SEMANTIC_MATCH (snd (?xs ! k)))\<rparr>"
    have evr: "evaluate sms g u st = Inr res"
      using ev best(5,6,7) m by (simp add: res_def)
    have "edge res = Some (fst (?xs ! k))
          \<and> rule res = Some (SEMANTIC_MATCH (snd (?xs ! k)))
          \<and> node (state res) = target (fst (?xs ! k))
          \<and> attemptNumber (state res) = 0
          \<and> map chosen (scoredSemanticMatchRules res)
              = (replicate (length ?xs) False)[k := True]"
      using fl by (simp add: res_def)
    moreover have "i = k" if "isWinner ?thr ?qs i" for i
      using that win by (rule isWinner_unique)
    ultimately show ?thesis
      using win evr by blast
  qed
qed

theorem C6_semantic_winner_witness:
  "\<exists>res. evaluate (tableScorer 0.75 [(''maybe'', 0.8), (''yes'', 0.9), (''sure'', 0.9)])
            threeWayGraph ''yep'' (startState None) = Inr res
     \<and> isWinner 0.75
          (qualifyingScores (tableScorer 0.75 [(''maybe'', 0.8), (''yes'', 0.9), (''sure'', 0.9)])
             ''yep'' threeWayGraph (startState None)) 1
     \<and> edge res = Some (mkEdge ''start'' ''b'' [SEMANTIC_MATCH \<lparr>matchCandidates = [positive ''yes'']\<rparr>])
     \<and> map chosen (scoredSemanticMatchRules res) = [False, True, False]"
proof -
  let ?sms = "tableScorer 0.75 [(''maybe'', 0.8), (''yes'', 0.9), (''sure'', 0.9)]"
  have xs: "examinedAt threeWayGraph (startState None) =
      [(mkEdge ''start'' ''a'' [SEMANTIC_MATCH \<lparr>matchCandidates = [positive ''maybe'']\<rparr>],
          \<lparr>matchCandidates = [positive ''maybe'']\<rparr>),
       (mkEdge ''start'' ''b'' [SEMANTIC_MATCH \<lparr>matchCandidates = [positive ''yes'']\<rparr>],
          \<lparr>matchCandidates = [positive ''yes'']\<rparr>),
       (mkEdge ''start'' ''c'' [SEMANTIC_MATCH \<lparr>matchCandidates = [positive ''sure'']\<rparr>],
          \<lparr>matchCandidates = [positive ''sure'']\<rparr>)]"
    by (simp add: examinedAt_def examined_def threeWayGraph_def sample_defs getOutEdges_def
        passedConditions_def)
  have qs: "qualifyingScores ?sms ''yep'' threeWayGraph (startState None) =
      [Some 0.8, Some 0.9, Some 0.9]"
    unfolding qualifyingScores_def xs
    by (simp add: qualifying_def sample_defs eval_defs)
  have win: "isWinner (getThreshold ?sms)
      (qualifyingScores ?sms ''yep'' threeWayGraph (startState None)) 1"
    unfolding qs isWinner_def
    by (intro conjI exI [of _ "0.9"])
       (auto simp: tableScorer_def nth_Cons' less_Suc_eq numeral_3_eq_3)
  have h1: "ready ?sms"
    by (simp add: tableScorer_def)
  have h2: "\<forall>x\<in>set (examinedAt threeWayGraph (startState None)). scorable ?sms ''yep'' (snd x)"
    unfolding xs by (simp add: scorable_def scoresFor_def tableScorer_def positive_def)
  from C6_semantic_winner [OF h1 h2] win
  obtain res where res: "evaluate ?sms threeWayGraph ''yep'' (startState None) = Inr res"
    and "edge res = Some (fst (examinedAt threeWayGraph (startState None) ! 1))"
    and "map chosen (scoredSemanticMatchRules res)
          = (replicate (length (examinedAt threeWayGraph (startState None))) False)[1 := True]"
    by blast
  then have "edge res = Some (mkEdge ''start'' ''b'' [SEMANTIC_MATCH \<lparr>matchCandidates = [positive ''yes'']\<rparr>])"
    and "map chosen (scoredSemanticMatchRules res) = [False, True, False]"
    unfolding xs by (simp_all add: numeral_3_eq_3)
  then show ?thesis
    using res win by (auto simp: tableScorer_def)
qed

text \<open>
  The claim as written fails for a threshold below 0: the only rule has the qualifying
  score -0.2, strictly above the threshold -0.5 and the unique maximum, and it does not
  win.
\<close>

theorem C6_negative_threshold_counterexample:
  "evaluate (tableScorer (-0.5) [(''yes'', -0.2)]) (mkGraph [''start'', ''m''] [semanticMutEdge])
     ''hello'' (startState None) =
   Inr \<lparr>state = \<lparr>node = mkNode ''start'', attemptNumber = 1, world = None\<rparr>,
        scoredSemanticMatchRules =
          [\<lparr>scoredCandidates_of =
              [\<lparr>candidate = positive ''yes'', score = Some (-0.2), topScore = True\<rparr>],
            rule_of = \<lparr>matchCandidates = [positive ''yes'']\<rparr>, chosen = False\<rparr>],
        edge = None, rule = None\<rparr>
   \<and> qualifying (tableScorer (-0.5) [(''yes'', -0.2)]) ''hello''
        \<lparr>matchCandidates = [positive ''yes'']\<rparr> = Some (-0.2)
   \<and> getThreshold (tableScorer (-0.5) [(''yes'', -0.2)]) < -0.2"
  by (simp add: sample_defs eval_defs qualifying_def)

section \<open>Serialization round trip\<close>












text \<open>
  What the store may hand back instead: a graph without its (empty) edge list comes
  out with one; an edge without mutations and conditions, and with a semantic rule
  that lost its data, comes out with empty lists and with the repaired rule; a graph
  without its node list, or an edge without rules, makes the load throw; an index out
  of range is stored as an undefined node, on which saving throws.
\<close>

lemma roundTrip_absent_nodes:
  "roundTrip (sampleWire\<lparr>nodes_sg := None, edges_sg := None\<rparr>) = Inl TypeError"
  by (simp add: roundTrip_def serializableGraphToGraph_def)

lemma roundTrip_absent_edges:
  "roundTrip (sampleWire\<lparr>edges_sg := None\<rparr>) = Inr (sampleWire\<lparr>edges_sg := Some []\<rparr>)"
  by (simp add: roundTrip_def serializableGraphToGraph_def graphToSerializableGraph_def
      sampleWire_def toNode_def purifyNode_def truthyString_def)

lemma roundTrip_absent_lists:
  "roundTrip (sampleWire\<lparr>edges_sg := Some [\<lparr>sourceIndex = 0, targetIndex = 1,
      rules_s = Some [SemanticNoData], mutations_s = None, conditions_s = None\<rparr>]\<rparr>)
   = Inr (sampleWire\<lparr>edges_sg := Some [\<lparr>sourceIndex = 0, targetIndex = 1,
      rules_s = Some [WithData (SEMANTIC_MATCH \<lparr>matchCandidates = []\<rparr>)],
      mutations_s = Some [], conditions_s = Some []\<rparr>]\<rparr>)"
  by (simp add: roundTrip_def serializableGraphToGraph_def graphToSerializableGraph_def
      sampleWire_def toEdge_def fromEdge_def jsIndex_def findNodeIndex_def toNode_def
      purifyNode_def truthyString_def)

lemma roundTrip_absent_rules:
  "roundTrip (sampleWire\<lparr>edges_sg := Some [\<lparr>sourceIndex = 0, targetIndex = 1,
      rules_s = None, mutations_s = Some [], conditions_s = Some []\<rparr>]\<rparr>) = Inl TypeError"
  by (simp add: roundTrip_def serializableGraphToGraph_def sampleWire_def toEdge_def)

lemma roundTrip_index_out_of_range:
  "(\<exists>graph. serializableGraphToGraph (sampleWire\<lparr>edges_sg := Some [\<lparr>sourceIndex = 0,
        targetIndex = 2, rules_s = Some [], mutations_s = Some [], conditions_s = Some []\<rparr>]\<rparr>)
      = Inr graph \<and> map target_r (edges_r graph) = [None])
   \<and> roundTrip (sampleWire\<lparr>edges_sg := Some [\<lparr>sourceIndex = 0, targetIndex = 2,
        rules_s = Some [], mutations_s = Some [], conditions_s = Some []\<rparr>]\<rparr>) = Inl TypeError
   \<and> roundTrip (sampleWire\<lparr>nodes_sg := Some [], edges_sg := Some [\<lparr>sourceIndex = 0,
        targetIndex = 0, rules_s = Some [], mutations_s = Some [], conditions_s = Some []\<rparr>]\<rparr>)
      = Inl NodeNotFound"
  by (simp add: roundTrip_def serializableGraphToGraph_def graphToSerializableGraph_def
      sampleWire_def toEdge_def fromEdge_def jsIndex_def findNodeIndex_def toNode_def
      purifyNode_def truthyString_def)

section \<open>The layout loop\<close>

subsection \<open>Counting\<close>

lemma mapSet_map_of: "map_of (mapSet k v ps) = (map_of ps)(k \<mapsto> v)"
  by (induction ps) auto

lemma mapSet_keys: "fst ` set (mapSet k v ps) = insert k (fst ` set ps)"
  by (induction ps) auto

lemma mapSet_distinct: "distinct (map fst ps) \<Longrightarrow> distinct (map fst (mapSet k v ps))"
proof (induction ps)
  case Nil
  then show ?case by simp
next
  case (Cons p ps)
  have "fst ` set (mapSet k v ps) = insert k (fst ` set ps)"
    by (rule mapSet_keys)
  then show ?case
    using Cons by auto
qed

lemma mapSet_set: "p \<in> set (mapSet k v ps) \<Longrightarrow> p = (k, v) \<or> p \<in> set ps"
  by (induction ps) (auto split: if_splits)

lemma countInDegrees_eq:
  "countInDegrees es m v =
     (case m v of
        None \<Rightarrow> (if filter (\<lambda>e. tgt e = v) es = [] then None
                  else Some (int (length (filter (\<lambda>e. tgt e = v) es))))
      | Some n \<Rightarrow> Some (n + int (length (filter (\<lambda>e. tgt e = v) es))))"
proof (induction es arbitrary: m)
  case Nil
  then show ?case by (simp split: option.split)
next
  case (Cons e es)
  show ?case
    by (simp add: Cons.IH tgt_def split: option.split)
qed

lemma length_filter_disj:
  assumes "\<And>x. x \<in> set xs \<Longrightarrow> \<not> (P x \<and> Q x)"
  shows "length (filter (\<lambda>x. P x \<or> Q x) xs) = length (filter P xs) + length (filter Q xs)"
  using assms by (induction xs) auto

lemma length_filter_conj_le:
  "length (filter (\<lambda>x. P x \<and> Q x) xs) \<le> length (filter P xs)"
  by (induction xs) auto

lemma length_filter_conj_eq:
  "length (filter (\<lambda>x. P x \<and> Q x) xs) = length (filter P xs) \<longleftrightarrow> (\<forall>x\<in>set xs. P x \<longrightarrow> Q x)"
proof (induction xs)
  case Nil
  then show ?case by simp
next
  case (Cons x xs)
  show ?case
    using Cons length_filter_conj_le [of P Q xs] by auto
qed

lemma pushed_le: "pushed g F v \<le> indeg0 g v"
proof -
  show ?thesis
    by (simp add: pushed_def indeg0_def length_filter_conj_le)
qed

lemma pushed_full:
  "pushed g F v = indeg0 g v \<longleftrightarrow> (\<forall>e\<in>set (edges g). tgt e = v \<longrightarrow> src e \<in> F)"
  by (simp add: pushed_def indeg0_def length_filter_conj_eq)

lemma pushed_insert:
  assumes "v \<notin> F"
  shows "pushed g (insert v F) w
     = pushed g F w + length (filter (\<lambda>e. tgt e = w \<and> src e = v) (edges g))"
proof -
  have "filter (\<lambda>e. tgt e = w \<and> src e \<in> insert v F) (edges g)
      = filter (\<lambda>e. (tgt e = w \<and> src e \<in> F) \<or> (tgt e = w \<and> src e = v)) (edges g)"
    by (rule filter_cong) auto
  moreover have "length (filter (\<lambda>e. (tgt e = w \<and> src e \<in> F) \<or> (tgt e = w \<and> src e = v)) (edges g))
      = length (filter (\<lambda>e. tgt e = w \<and> src e \<in> F) (edges g))
        + length (filter (\<lambda>e. tgt e = w \<and> src e = v) (edges g))"
    using assms by (intro length_filter_disj) auto
  ultimately show ?thesis
    by (simp add: pushed_def)
qed

lemma inq_append: "inq (xs @ ys) v = inq xs v + inq ys v"
  by (simp add: inq_def)

lemma inq_outs:
  "inq (map (\<lambda>e. (target e, d)) (filter (\<lambda>e. src e = v) es)) w
     = length (filter (\<lambda>e. tgt e = w \<and> src e = v) es)"
  by (induction es) (auto simp: inq_def tgt_def)

lemma getOutEdges_None:
  "getOutEdges n g None = filter (\<lambda>e. src e = id_node n) (edges g)"
  by (simp add: getOutEdges_def passedConditions_def src_def)

lemma inq_Cons: "inq ((n, d) # q) w = (if id_node n = w then 1 else 0) + inq q w"
  by (simp add: inq_def)

lemma layoutStep_finish:
  assumes "inDegree s (id_node n) = Some 1"
  shows "layoutStep g (n, d) s =
     s\<lparr>finished := insert (id_node n) (finished s),
       proc := proc s @ map (\<lambda>e. (target e, d + 1)) (filter (\<lambda>e. src e = id_node n) (edges g)),
       depthMap := mapSet (id_node n) d (depthMap s),
       maxDepth := max (maxDepth s) d\<rparr>"
  using assms by (auto simp: layoutStep_def getOutEdges_None max_def Let_def)

lemma layoutStep_dec:
  assumes "inDegree s (id_node n) = Some r" and "r \<noteq> 1"
  shows "layoutStep g (n, d) s =
     s\<lparr>inDegree := (inDegree s)(id_node n \<mapsto> r - 1),
       depthMap := mapSet (id_node n) d (depthMap s),
       maxDepth := max (maxDepth s) d\<rparr>"
  using assms by (auto simp: layoutStep_def max_def Let_def)

text \<open>What the counting invariant says about the head of the queue.\<close>

lemma cntInv_head:
  assumes inv: "cntInv g s" and q: "proc s = (n, d) # rest"
  obtains r where "id_node n \<notin> finished s" "inDegree s (id_node n) = Some r" "1 \<le> r"
    "r = int (indeg0 g (id_node n)) - int (pushed g (finished s) (id_node n))
          + int (inq (proc s) (id_node n))"
    "1 \<le> inq (proc s) (id_node n)"
proof -
  let ?v = "id_node n"
  have i: "1 \<le> inq (proc s) ?v"
    by (simp add: q inq_Cons)
  then have nf: "?v \<notin> finished s"
    using inv unfolding cntInv_def by fastforce
  then have "inq (proc s) ?v \<le> pushed g (finished s) ?v"
    using inv unfolding cntInv_def by blast
  then have "0 < indeg0 g ?v"
    using i pushed_le [of g "finished s" ?v] by linarith
  then obtain r where "inDegree s ?v = Some r" "1 \<le> r"
    "r = int (indeg0 g ?v) - int (pushed g (finished s) ?v) + int (inq (proc s) ?v)"
    using inv nf unfolding cntInv_def by blast
  then show thesis
    using that nf i by blast
qed

lemma cntInv_step:
  assumes inv: "cntInv g s" and q: "proc s = (n, d) # rest"
  shows "cntInv g (layoutStep g (n, d) (s\<lparr>proc := rest\<rparr>))"
proof -
  let ?v = "id_node n" and ?F = "finished s"
  from inv q obtain r where nf: "?v \<notin> ?F" and r: "inDegree s ?v = Some r" "1 \<le> r"
    "r = int (indeg0 g ?v) - int (pushed g ?F ?v) + int (inq (proc s) ?v)"
    and i: "1 \<le> inq (proc s) ?v"
    by (rule cntInv_head)
  have inqs: "\<And>w. inq (proc s) w = (if ?v = w then 1 else 0) + inq rest w"
    by (simp add: q inq_Cons)
  have fin: "\<And>w. w \<in> ?F \<Longrightarrow> inq (proc s) w = 0 \<and> pushed g ?F w = indeg0 g w \<and> 0 < indeg0 g w"
    using inv unfolding cntInv_def by blast
  have unf: "\<And>w. w \<notin> ?F \<Longrightarrow> inq (proc s) w \<le> pushed g ?F w"
    using inv unfolding cntInv_def by blast
  have unfr: "\<And>w. w \<notin> ?F \<Longrightarrow> 0 < indeg0 g w \<Longrightarrow>
      \<exists>r. inDegree s w = Some r \<and> 1 \<le> r
         \<and> r = int (indeg0 g w) - int (pushed g ?F w) + int (inq (proc s) w)"
    using inv unfolding cntInv_def by blast
  show ?thesis
  proof (cases "r = 1")
    case True
    let ?c = "\<lambda>w. length (filter (\<lambda>e. tgt e = w \<and> src e = ?v) (edges g))"
    let ?s' = "layoutStep g (n, d) (s\<lparr>proc := rest\<rparr>)"
    have full: "pushed g ?F ?v = indeg0 g ?v" and one: "inq (proc s) ?v = 1"
      using True r(3) i pushed_le [of g ?F ?v] by linarith+
    have s': "?s' = s\<lparr>finished := insert ?v ?F,
        proc := rest @ map (\<lambda>e. (target e, d + 1)) (filter (\<lambda>e. src e = ?v) (edges g)),
        depthMap := mapSet ?v d (depthMap s), maxDepth := max (maxDepth s) d\<rparr>"
      using layoutStep_finish [of "s\<lparr>proc := rest\<rparr>" n g d] r(1) True by simp
    have F': "finished ?s' = insert ?v ?F"
      and Q': "\<And>w. inq (proc ?s') w = inq rest w + ?c w"
      and D': "inDegree ?s' = inDegree s"
      unfolding s' by (simp_all add: inq_append inq_outs)
    have P': "\<And>w. pushed g (finished ?s') w = pushed g ?F w + ?c w"
      unfolding F' using pushed_insert [OF nf] by simp
    have nopush: "?c w = 0" if "pushed g ?F w = indeg0 g w" for w
    proof -
      have "\<forall>e\<in>set (edges g). tgt e = w \<longrightarrow> src e \<in> ?F"
        using that by (simp add: pushed_full)
      then have "filter (\<lambda>e. tgt e = w \<and> src e = ?v) (edges g) = []"
        using nf by (auto simp: filter_empty_conv)
      then show ?thesis by simp
    qed
    have a: "inq (proc ?s') w = 0 \<and> pushed g (finished ?s') w = indeg0 g w \<and> 0 < indeg0 g w"
      if "w \<in> finished ?s'" for w
    proof (cases "w = ?v")
      case True
      have "0 < indeg0 g ?v"
        using full i unf [OF nf] by linarith
      then show ?thesis
        using True Q' [of ?v] P' [of ?v] nopush [OF full] full one inqs [of ?v] by simp
    next
      case False
      then have w: "w \<in> ?F"
        using that F' by simp
      then show ?thesis
        using False Q' [of w] P' [of w] nopush [of w] fin [OF w] inqs [of w] by simp
    qed
    have b: "inq (proc ?s') w \<le> pushed g (finished ?s') w
        \<and> (0 < indeg0 g w \<longrightarrow>
             (\<exists>r. inDegree ?s' w = Some r \<and> 1 \<le> r
                \<and> r = int (indeg0 g w) - int (pushed g (finished ?s') w)
                      + int (inq (proc ?s') w)))"
      if "w \<notin> finished ?s'" for w
    proof -
      have w: "w \<noteq> ?v" "w \<notin> ?F"
        using that F' by simp_all
      have eq: "inq (proc s) w = inq rest w"
        using inqs [of w] w(1) by simp
      have "inq (proc ?s') w \<le> pushed g (finished ?s') w"
        using Q' [of w] P' [of w] unf [OF w(2)] eq by simp
      moreover have "\<exists>r. inDegree ?s' w = Some r \<and> 1 \<le> r
                \<and> r = int (indeg0 g w) - int (pushed g (finished ?s') w)
                      + int (inq (proc ?s') w)" if "0 < indeg0 g w"
        using unfr [OF w(2) that] Q' [of w] P' [of w] eq D' by auto
      ultimately show ?thesis by blast
    qed
    show ?thesis
      unfolding cntInv_def using a b by blast
  next
    case False
    let ?s' = "layoutStep g (n, d) (s\<lparr>proc := rest\<rparr>)"
    have s': "?s' = s\<lparr>proc := rest, inDegree := (inDegree s)(?v \<mapsto> r - 1),
        depthMap := mapSet ?v d (depthMap s), maxDepth := max (maxDepth s) d\<rparr>"
      using layoutStep_dec [of "s\<lparr>proc := rest\<rparr>" n r g d] r(1) False by simp
    have F': "finished ?s' = ?F" and Q': "proc ?s' = rest"
      and D': "inDegree ?s' = (inDegree s)(?v \<mapsto> r - 1)"
      unfolding s' by simp_all
    have a: "inq (proc ?s') w = 0 \<and> pushed g (finished ?s') w = indeg0 g w \<and> 0 < indeg0 g w"
      if "w \<in> finished ?s'" for w
      using that fin [of w] inqs [of w] unfolding F' Q' by simp
    have b: "inq (proc ?s') w \<le> pushed g (finished ?s') w
        \<and> (0 < indeg0 g w \<longrightarrow>
             (\<exists>r. inDegree ?s' w = Some r \<and> 1 \<le> r
                \<and> r = int (indeg0 g w) - int (pushed g (finished ?s') w)
                      + int (inq (proc ?s') w)))"
      if "w \<notin> finished ?s'" for w
    proof (cases "w = ?v")
      case True
      have "inq rest ?v \<le> pushed g ?F ?v"
        using unf [OF nf] inqs [of ?v] by simp
      moreover have "1 \<le> r - 1
          \<and> r - 1 = int (indeg0 g ?v) - int (pushed g ?F ?v) + int (inq rest ?v)"
        using r(2,3) False inqs [of ?v] by simp
      ultimately show ?thesis
        unfolding F' Q' D' using True by simp
    next
      case False
      have w: "w \<notin> ?F"
        using that F' by simp
      have eq: "inq (proc s) w = inq rest w"
        using inqs [of w] False by simp
      show ?thesis
        unfolding F' Q' D' using unf [OF w] unfr [OF w] eq False by auto
    qed
    show ?thesis
      unfolding cntInv_def using a b by blast
  qed
qed

lemma layoutMeasure_step:
  assumes inv: "cntInv g s" and q: "proc s = (n, d) # rest"
  shows "layoutMeasure g (layoutStep g (n, d) (s\<lparr>proc := rest\<rparr>)) < layoutMeasure g s"
proof -
  let ?v = "id_node n" and ?F = "finished s"
  from inv q obtain r where nf: "?v \<notin> ?F" and r: "inDegree s ?v = Some r"
    by (rule cntInv_head)
  show ?thesis
  proof (cases "r = 1")
    case True
    have split: "filter (\<lambda>e. src e \<notin> ?F) (edges g)
        = filter (\<lambda>e. src e \<notin> insert ?v ?F \<or> src e = ?v) (edges g)"
      using nf by (intro filter_cong) auto
    have "length (filter (\<lambda>e. src e \<notin> insert ?v ?F \<or> src e = ?v) (edges g))
        = length (filter (\<lambda>e. src e \<notin> insert ?v ?F) (edges g))
          + length (filter (\<lambda>e. src e = ?v) (edges g))"
      by (intro length_filter_disj) auto
    then show ?thesis
      using layoutStep_finish [of "s\<lparr>proc := rest\<rparr>" n g d] r True q split
      by (simp add: layoutMeasure_def)
  next
    case False
    then show ?thesis
      using layoutStep_dec [of "s\<lparr>proc := rest\<rparr>" n r g d] r q
      by (simp add: layoutMeasure_def)
  qed
qed

subsection \<open>Depths\<close>

lemma depInv_step:
  assumes cnt: "cntInv g s" and dep: "depInv s" and q: "proc s = (n, d) # rest"
  shows "depInv (layoutStep g (n, d) (s\<lparr>proc := rest\<rparr>))"
proof -
  let ?v = "id_node n" and ?s' = "layoutStep g (n, d) (s\<lparr>proc := rest\<rparr>)"
  from cnt q obtain r where r: "inDegree s ?v = Some r"
    by (rule cntInv_head)
  have dist: "distinct (map fst (depthMap s))"
    and srt: "sorted (map snd (proc s))"
    and near: "\<And>x y. x \<in> set (proc s) \<Longrightarrow> y \<in> set (proc s) \<Longrightarrow> snd x \<le> snd y + 1"
    and below: "\<And>p x. p \<in> set (depthMap s) \<Longrightarrow> x \<in> set (proc s) \<Longrightarrow> snd p \<le> snd x"
    and bound: "\<And>p. p \<in> set (depthMap s) \<Longrightarrow> snd p \<le> maxDepth s"
    and keys: "finished s \<subseteq> fst ` set (depthMap s)"
    using dep unfolding depInv_def by blast+
  have head: "(n, d) \<in> set (proc s)" and tl: "set rest \<subseteq> set (proc s)"
    by (simp_all add: q subset_insertI)
  have ge: "\<And>x. x \<in> set rest \<Longrightarrow> d \<le> snd x"
    using srt by (auto simp: q)
  have le: "\<And>x. x \<in> set rest \<Longrightarrow> snd x \<le> d + 1"
    using near [OF _ head] tl by fastforce
  have srest: "sorted (map snd rest)"
    using srt by (simp add: q)
  define news where "news = map (\<lambda>e. (target e, d + 1)) (filter (\<lambda>e. src e = ?v) (edges g))"
  have nw: "\<And>x. x \<in> set news \<Longrightarrow> snd x = d + 1"
    by (auto simp: news_def)
  obtain q' F' where shape: "proc ?s' = q'" "finished ?s' = F'"
    "depthMap ?s' = mapSet ?v d (depthMap s)" "maxDepth ?s' = max (maxDepth s) d"
    and q': "q' = rest \<or> q' = rest @ news" and F': "F' \<subseteq> insert ?v (finished s)"
  proof (cases "r = 1")
    case True
    show ?thesis
      using that [of "rest @ news" "insert ?v (finished s)"]
        layoutStep_finish [of "s\<lparr>proc := rest\<rparr>" n g d] r True
      by (simp add: news_def)
  next
    case False
    show ?thesis
      using that [of rest "finished s"] layoutStep_dec [of "s\<lparr>proc := rest\<rparr>" n r g d] r False
      by auto
  qed
  have inq': "\<And>x. x \<in> set q' \<Longrightarrow> d \<le> snd x \<and> snd x \<le> d + 1"
    using q' ge le nw by fastforce
  have 1: "distinct (map fst (depthMap ?s'))"
    unfolding shape by (rule mapSet_distinct [OF dist])
  have "map snd news = replicate (length news) (d + 1)"
    by (simp add: news_def map_replicate_const comp_def)
  then have "sorted (map snd news)"
    by simp
  then have "sorted (map snd (rest @ news))"
    using srest le nw by (auto simp: sorted_append)
  then have 2: "sorted (map snd (proc ?s'))"
    unfolding shape using q' srest by auto
  have 3: "\<forall>x\<in>set (proc ?s'). \<forall>y\<in>set (proc ?s'). snd x \<le> snd y + 1"
    unfolding shape
  proof (intro ballI)
    fix x y assume "x \<in> set q'" and "y \<in> set q'"
    then have "snd x \<le> d + 1" and "d \<le> snd y"
      using inq' by blast+
    then show "snd x \<le> snd y + 1"
      by simp
  qed
  have 4: "\<forall>p\<in>set (depthMap ?s'). \<forall>x\<in>set (proc ?s'). snd p \<le> snd x"
  proof (intro ballI)
    fix p x assume p: "p \<in> set (depthMap ?s')" and x: "x \<in> set (proc ?s')"
    from p have "p = (?v, d) \<or> p \<in> set (depthMap s)"
      unfolding shape by (rule mapSet_set)
    then have "snd p \<le> d"
    proof
      assume "p = (?v, d)"
      then show ?thesis by simp
    next
      assume "p \<in> set (depthMap s)"
      from below [OF this head] show ?thesis by simp
    qed
    then show "snd p \<le> snd x"
      using inq' x unfolding shape by fastforce
  qed
  have 5: "\<forall>p\<in>set (depthMap ?s'). snd p \<le> maxDepth ?s'"
  proof
    fix p assume "p \<in> set (depthMap ?s')"
    then have "p = (?v, d) \<or> p \<in> set (depthMap s)"
      unfolding shape by (rule mapSet_set)
    then show "snd p \<le> maxDepth ?s'"
      unfolding shape using bound by fastforce
  qed
  have 6: "finished ?s' \<subseteq> fst ` set (depthMap ?s')"
    unfolding shape mapSet_keys using F' keys by auto
  show ?thesis
    unfolding depInv_def using 1 2 3 4 5 6 by blast
qed

subsection \<open>Paths\<close>

lemma justified_mono:
  assumes "justified g s w k" and "finished s \<subseteq> finished s'"
    and "\<And>u. u \<in> finished s \<Longrightarrow> map_of (depthMap s') u = map_of (depthMap s) u"
  shows "justified g s' w k"
  using assms unfolding justified_def by (metis subsetD)

lemma pathInv_step:
  assumes cnt: "cntInv g s" and dep: "depInv s" and pth: "pathInv g s"
    and q: "proc s = (n, d) # rest"
  shows "pathInv g (layoutStep g (n, d) (s\<lparr>proc := rest\<rparr>))"
proof -
  let ?v = "id_node n" and ?s' = "layoutStep g (n, d) (s\<lparr>proc := rest\<rparr>)"
  let ?dm = "map_of (depthMap s)"
  from cnt q obtain r where nf: "?v \<notin> finished s" and r: "inDegree s ?v = Some r"
    by (rule cntInv_head)
  have below: "\<And>p x. p \<in> set (depthMap s) \<Longrightarrow> x \<in> set (proc s) \<Longrightarrow> snd p \<le> snd x"
    using dep unfolding depInv_def by blast
  have head: "(n, d) \<in> set (proc s)"
    by (simp add: q)
  have edge: "\<And>e. e \<in> set (edges g) \<Longrightarrow> src e \<in> finished s \<Longrightarrow>
      \<exists>k. ?dm (src e) = Some k
          \<and> ((\<exists>k'. ?dm (tgt e) = Some k' \<and> k + 1 \<le> k')
              \<or> (\<exists>x\<in>set (proc s). id_node (fst x) = tgt e \<and> k + 1 \<le> snd x))"
    and rec: "\<And>w k. ?dm w = Some k \<Longrightarrow> justified g s w k"
    and que: "\<And>x. x \<in> set (proc s) \<Longrightarrow> justified g s (id_node (fst x)) (snd x)"
    using pth unfolding pathInv_def by blast+
  define news where "news = map (\<lambda>e. (target e, d + 1)) (filter (\<lambda>e. src e = ?v) (edges g))"
  obtain q' F' where shape: "proc ?s' = q'" "finished ?s' = F'"
    "depthMap ?s' = mapSet ?v d (depthMap s)"
    and cases: "(q' = rest \<and> F' = finished s) \<or> (q' = rest @ news \<and> F' = insert ?v (finished s))"
  proof (cases "r = 1")
    case True
    show ?thesis
      using that [of "rest @ news" "insert ?v (finished s)"]
        layoutStep_finish [of "s\<lparr>proc := rest\<rparr>" n g d] r True
      by (simp add: news_def)
  next
    case False
    show ?thesis
      using that [of rest "finished s"] layoutStep_dec [of "s\<lparr>proc := rest\<rparr>" n r g d] r False
      by simp
  qed
  have dm': "map_of (depthMap ?s') = ?dm(?v \<mapsto> d)"
    unfolding shape by (rule mapSet_map_of)
  have sub: "finished s \<subseteq> finished ?s'"
    unfolding shape using cases by auto
  have same: "\<And>u. u \<in> finished s \<Longrightarrow> map_of (depthMap ?s') u = ?dm u"
    using nf by (auto simp: dm')
  have keep: "justified g ?s' w k" if "justified g s w k" for w k
    using that sub same by (rule justified_mono)
  have restq: "set rest \<subseteq> set (proc ?s')"
    unfolding shape using cases by auto
  have 1: "\<exists>k. map_of (depthMap ?s') (src e) = Some k
          \<and> ((\<exists>k'. map_of (depthMap ?s') (tgt e) = Some k' \<and> k + 1 \<le> k')
              \<or> (\<exists>x\<in>set (proc ?s'). id_node (fst x) = tgt e \<and> k + 1 \<le> snd x))"
    if e: "e \<in> set (edges g)" and fin: "src e \<in> finished ?s'" for e
  proof (cases "src e \<in> finished s")
    case True
    from edge [OF e True] obtain k where k: "?dm (src e) = Some k"
      and alt: "(\<exists>k'. ?dm (tgt e) = Some k' \<and> k + 1 \<le> k')
              \<or> (\<exists>x\<in>set (proc s). id_node (fst x) = tgt e \<and> k + 1 \<le> snd x)"
      by blast
    have k': "map_of (depthMap ?s') (src e) = Some k"
      using same [OF True] k by simp
    from alt show ?thesis
    proof
      assume "\<exists>k'. ?dm (tgt e) = Some k' \<and> k + 1 \<le> k'"
      then obtain k1 where k1: "?dm (tgt e) = Some k1" "k + 1 \<le> k1"
        by blast
      show ?thesis
      proof (cases "tgt e = ?v")
        case True
        have "(?v, k1) \<in> set (depthMap s)"
          using k1(1) True by (simp add: map_of_SomeD)
        then have "k1 \<le> d"
          using below [OF _ head] by fastforce
        then show ?thesis
          using k' k1(2) True by (simp add: dm')
      next
        case False
        then show ?thesis
          using k' k1 by (simp add: dm')
      qed
    next
      assume "\<exists>x\<in>set (proc s). id_node (fst x) = tgt e \<and> k + 1 \<le> snd x"
      then obtain x where x: "x \<in> set (proc s)" "id_node (fst x) = tgt e" "k + 1 \<le> snd x"
        by blast
      show ?thesis
      proof (cases "x = (n, d)")
        case True
        then show ?thesis
          using k' x by (auto simp: dm')
      next
        case False
        then have "x \<in> set (proc ?s')"
          using x(1) restq by (auto simp: q)
        then show ?thesis
          using k' x by blast
      qed
    qed
  next
    case False
    then have v: "src e = ?v" and fc: "q' = rest @ news"
      using fin cases unfolding shape by auto
    have "(target e, d + 1) \<in> set (proc ?s')"
      unfolding shape fc news_def using e v by auto
    moreover have "map_of (depthMap ?s') (src e) = Some d"
      using v by (simp add: dm')
    ultimately show ?thesis
      by (force simp: tgt_def)
  qed
  have 2: "justified g ?s' w k" if "map_of (depthMap ?s') w = Some k" for w k
  proof (cases "w = ?v")
    case True
    then have "k = d"
      using that by (simp add: dm')
    then show ?thesis
      using keep [OF que [OF head]] True by simp
  next
    case False
    then have "?dm w = Some k"
      using that by (simp add: dm')
    then show ?thesis
      using keep rec by blast
  qed
  have 3: "justified g ?s' (id_node (fst x)) (snd x)" if "x \<in> set (proc ?s')" for x
  proof (cases "x \<in> set rest")
    case True
    then show ?thesis
      using keep que by (auto simp: q)
  next
    case False
    then have fc: "F' = insert ?v (finished s)" and "x \<in> set news"
      using that cases unfolding shape by auto
    then obtain e where e: "e \<in> set (edges g)" "src e = ?v" "x = (target e, d + 1)"
      by (auto simp: news_def)
    have "tgt e = id_node (fst x) \<and> src e \<in> finished ?s'
        \<and> (\<exists>j. map_of (depthMap ?s') (src e) = Some j \<and> snd x = j + 1)"
      using e fc unfolding shape(2) by (simp add: dm' tgt_def)
    then show ?thesis
      unfolding justified_def using e(1) by blast
  qed
  show ?thesis
    unfolding pathInv_def using 1 2 3 by blast
qed

subsection \<open>The loop returns\<close>

lemma layoutLoop_returns:
  assumes "cntInv g s" and "depInv s" and "pathInv g s"
  shows "\<exists>s'. layoutLoop g s = Some s' \<and> proc s' = []
            \<and> cntInv g s' \<and> depInv s' \<and> pathInv g s'"
  using assms
proof (induction "layoutMeasure g s" arbitrary: s rule: less_induct)
  case less
  show ?case
  proof (cases "proc s")
    case Nil
    then have "layoutLoop g s = Some s"
      by (subst layoutLoop.simps) simp
    then show ?thesis
      using Nil less.prems by blast
  next
    case (Cons cur rest)
    obtain n d where cur: "cur = (n, d)"
      by (cases cur)
    let ?s' = "layoutStep g (n, d) (s\<lparr>proc := rest\<rparr>)"
    have q: "proc s = (n, d) # rest"
      using Cons cur by simp
    have "layoutMeasure g ?s' < layoutMeasure g s"
      using less.prems(1) q by (rule layoutMeasure_step)
    moreover have "cntInv g ?s'"
      using less.prems(1) q by (rule cntInv_step)
    moreover have "depInv ?s'"
      using less.prems(1,2) q by (rule depInv_step)
    moreover have "pathInv g ?s'"
      using less.prems q by (rule pathInv_step)
    ultimately obtain s'' where "layoutLoop g ?s' = Some s''" "proc s'' = []"
      "cntInv g s''" "depInv s''" "pathInv g s''"
      using less.hyps by blast
    moreover have "layoutLoop g s = layoutLoop g ?s'"
      by (subst layoutLoop.simps) (simp add: q)
    ultimately show ?thesis
      by auto
  qed
qed

subsection \<open>The initial state\<close>

lemma initial_invariants:
  assumes "id_node startNode = start g"
  shows "cntInv g (initialLayout g startNode)" and "depInv (initialLayout g startNode)"
    and "pathInv g (initialLayout g startNode)"
proof -
  let ?s0 = "initialLayout g startNode"
  have deg: "inDegree ?s0 v = Some (int (indeg0 g v))" if "0 < indeg0 g v" for v
  proof (cases "v = start g")
    case True
    then show ?thesis
      using assms by (simp add: initialLayout_def countInDegrees_eq indeg0_def)
  next
    case False
    then show ?thesis
      using that assms by (simp add: initialLayout_def countInDegrees_eq indeg0_def)
  qed
  have "inq (proc ?s0) v \<le> pushed g (finished ?s0) v
      \<and> (0 < indeg0 g v \<longrightarrow>
           (\<exists>r. inDegree ?s0 v = Some r \<and> 1 \<le> r
              \<and> r = int (indeg0 g v) - int (pushed g (finished ?s0) v)
                    + int (inq (proc ?s0) v)))"
    for v
  proof -
    have "inq (proc ?s0) v = (if v = start g then 1 else 0)"
      using assms by (auto simp: initialLayout_def inq_def)
    moreover have "pushed g (finished ?s0) v = (if v = start g then 1 else 0)"
      by (simp add: initialLayout_def pushed_def)
    ultimately show ?thesis
      using deg [of v] by auto
  qed
  then show "cntInv g ?s0"
    unfolding cntInv_def by (simp add: initialLayout_def)
  show "depInv ?s0"
    by (simp add: depInv_def initialLayout_def)
  show "pathInv g ?s0"
    using assms by (simp add: pathInv_def initialLayout_def justified_def)
qed

subsection \<open>The state after the loop\<close>

lemma in_edgeRel: "(a, b) \<in> edgeRel g \<longleftrightarrow> (\<exists>e\<in>set (edges g). src e = a \<and> tgt e = b)"
  by (auto simp: edgeRel_def src_def tgt_def)

lemma indeg0_pos: "0 < indeg0 g v \<longleftrightarrow> v = start g \<or> (\<exists>e\<in>set (edges g). tgt e = v)"
  by (auto simp: indeg0_def filter_empty_conv)

lemma finished_nodeIds:
  assumes "cntInv g s" and "wellFormed g"
  shows "finished s \<subseteq> nodeIds g"
proof
  fix v assume "v \<in> finished s"
  then have "0 < indeg0 g v"
    using assms(1) unfolding cntInv_def by blast
  then show "v \<in> nodeIds g"
    using assms(2) unfolding wellFormed_def indeg0_pos by blast
qed

lemma all_finished_iff:
  assumes "cntInv g s" and "wellFormed g"
  shows "card (finished s) = length (nodes g) \<longleftrightarrow> finished s = nodeIds g"
proof -
  have c: "card (nodeIds g) = length (nodes g)"
    using assms(2) unfolding wellFormed_def nodeIds_def
    by (metis distinct_card length_map)
  have sub: "finished s \<subseteq> nodeIds g"
    using assms by (rule finished_nodeIds)
  have fin: "finite (nodeIds g)"
    by (simp add: nodeIds_def)
  show ?thesis
    using c sub fin by (metis card_subset_eq)
qed

text \<open>All nodes finished: the recorded depth of a node is its longest-path length.\<close>

lemma complete_depths:
  assumes wf: "wellFormed g" and cnt: "cntInv g s" and dep: "depInv s" and pth: "pathInv g s"
    and emp: "proc s = []" and all: "finished s = nodeIds g"
  shows "acyclic (edgeRel g)"
    and "\<forall>v\<in>nodeIds g. (start g, v) \<in> (edgeRel g)\<^sup>*"
    and "\<forall>v i. longestPath g v i \<longleftrightarrow> map_of (depthMap s) v = Some i"
proof -
  let ?dm = "map_of (depthMap s)" and ?E = "edgeRel g"
  have total: "\<exists>k. ?dm v = Some k" if "v \<in> nodeIds g" for v
  proof -
    have "v \<in> fst ` set (depthMap s)"
      using that all dep unfolding depInv_def by blast
    then show ?thesis
      by (metis map_of_eq_None_iff not_Some_eq)
  qed
  have lb: "\<exists>k k'. ?dm a = Some k \<and> ?dm b = Some k' \<and> k + 1 \<le> k'" if "(a, b) \<in> ?E" for a b
  proof -
    from that obtain e where e: "e \<in> set (edges g)" "src e = a" "tgt e = b"
      unfolding in_edgeRel by blast
    then have "src e \<in> finished s"
      using wf all unfolding wellFormed_def by blast
    then show ?thesis
      using pth e emp unfolding pathInv_def by fastforce
  qed
  have path_lb: "\<exists>kb. ?dm b = Some kb \<and> ka + n \<le> kb"
    if "(a, b) \<in> ?E ^^ n" and "?dm a = Some ka" for a b n ka
    using that
  proof (induction n arbitrary: b)
    case 0
    then show ?case by simp
  next
    case (Suc n)
    from Suc.prems(1) obtain y where y: "(a, y) \<in> ?E ^^ n" "(y, b) \<in> ?E"
      by auto
    from Suc.IH [OF y(1) Suc.prems(2)] obtain ky where ky: "?dm y = Some ky" "ka + n \<le> ky"
      by blast
    from lb [OF y(2)] ky(1) obtain k' where "?dm b = Some k'" "ky + 1 \<le> k'"
      by auto
    then show ?case
      using ky(2) by simp
  qed
  have reach: "(start g, w) \<in> ?E ^^ k" if "?dm w = Some k" for w k
    using that
  proof (induction k arbitrary: w)
    case 0
    then have "justified g s w 0"
      using pth unfolding pathInv_def by blast
    then show ?case
      unfolding justified_def by auto
  next
    case (Suc k)
    then have "justified g s w (Suc k)"
      using pth unfolding pathInv_def by blast
    then obtain e where e: "e \<in> set (edges g)" "tgt e = w" "?dm (src e) = Some k"
      unfolding justified_def by auto
    have "(src e, w) \<in> ?E"
      using e(1,2) unfolding in_edgeRel by blast
    then show ?case
      using Suc.IH [OF e(3)] by auto
  qed
  obtain k0 where k0: "?dm (start g) = Some k0"
    using total wf unfolding wellFormed_def by blast
  have "k0 = 0"
    using path_lb [OF reach [OF k0] k0] k0 by simp
  then have s0: "?dm (start g) = Some 0"
    using k0 by simp
  show "acyclic ?E"
    unfolding acyclic_def
  proof (intro allI notI)
    fix a assume "(a, a) \<in> ?E\<^sup>+"
    then obtain n where n: "0 < n" "(a, a) \<in> ?E ^^ n"
      unfolding trancl_power by blast
    then obtain y where "(a, y) \<in> ?E"
      by (metis relpow_E2 less_numeral_extra(3))
    then obtain ka where ka: "?dm a = Some ka"
      using lb by blast
    from path_lb [OF n(2) ka] show False
      using ka n(1) by simp
  qed
  show "\<forall>v\<in>nodeIds g. (start g, v) \<in> ?E\<^sup>*"
    using total reach relpow_imp_rtrancl by blast
  show "\<forall>v i. longestPath g v i \<longleftrightarrow> ?dm v = Some i"
  proof (intro allI iffI)
    fix v i assume lp: "longestPath g v i"
    then have p: "(start g, v) \<in> ?E ^^ i" and mx: "\<And>n. (start g, v) \<in> ?E ^^ n \<Longrightarrow> n \<le> i"
      unfolding longestPath_def by blast+
    from path_lb [OF p s0] obtain kb where kb: "?dm v = Some kb" "i \<le> kb"
      by auto
    have "kb \<le> i"
      using mx [OF reach [OF kb(1)]] .
    then show "?dm v = Some i"
      using kb by simp
  next
    fix v i assume d: "?dm v = Some i"
    have "n \<le> i" if "(start g, v) \<in> ?E ^^ n" for n
      using path_lb [OF that s0] d by simp
    then show "longestPath g v i"
      unfolding longestPath_def using reach [OF d] by blast
  qed
qed

text \<open>Some node unfinished: it lies behind a cycle or is out of reach of the start.\<close>

lemma incomplete_cause:
  assumes wf: "wellFormed g" and cnt: "cntInv g s" and emp: "proc s = []"
    and some: "finished s \<noteq> nodeIds g"
  shows "\<not> acyclic (edgeRel g) \<or> (\<exists>v\<in>nodeIds g. (start g, v) \<notin> (edgeRel g)\<^sup>*)"
proof (rule ccontr)
  assume "\<not> ?thesis"
  then have acy: "acyclic (edgeRel g)" and rch: "\<And>v. v \<in> nodeIds g \<Longrightarrow> (start g, v) \<in> (edgeRel g)\<^sup>*"
    by blast+
  let ?U = "nodeIds g - finished s"
  have sub: "finished s \<subseteq> nodeIds g"
    using cnt wf by (rule finished_nodeIds)
  then obtain x where x: "x \<in> ?U"
    using some by blast
  have pred: "\<exists>u\<in>?U. (u, v) \<in> edgeRel g" if v: "v \<in> ?U" for v
  proof -
    have vs: "v \<in> nodeIds g" "v \<notin> finished s"
      using v by simp_all
    have pos: "0 < indeg0 g v"
    proof (cases "v = start g")
      case True
      then show ?thesis by (simp add: indeg0_pos)
    next
      case False
      then obtain y where "(y, v) \<in> edgeRel g"
        using rch [OF vs(1)] by (metis rtranclE)
      then show ?thesis
        unfolding indeg0_pos in_edgeRel by blast
    qed
    then obtain r where "1 \<le> r"
      "r = int (indeg0 g v) - int (pushed g (finished s) v) + int (inq (proc s) v)"
      using cnt vs(2) unfolding cntInv_def by blast
    then have "pushed g (finished s) v \<noteq> indeg0 g v"
      by (simp add: emp inq_def)
    then obtain e where e: "e \<in> set (edges g)" "tgt e = v" "src e \<notin> finished s"
      unfolding pushed_full by blast
    then have "src e \<in> ?U" and "(src e, v) \<in> edgeRel g"
      using wf unfolding wellFormed_def in_edgeRel by blast+
    then show ?thesis by blast
  qed
  have "finite (edgeRel g)"
    by (simp add: edgeRel_def)
  then have "wf (edgeRel g)"
    using acy by (rule finite_acyclic_wf)
  then obtain z where "z \<in> ?U" and "\<And>y. (y, z) \<in> edgeRel g \<Longrightarrow> y \<notin> ?U"
    using x by (rule wfE_min) blast
  then show False
    using pred by blast
qed

subsection \<open>The levels\<close>

lemma depthToNode_levels:
  assumes "depInv s"
  shows "i < length (depthToNode (depthMap s) (maxDepth s))
           \<and> v \<in> set (depthToNode (depthMap s) (maxDepth s) ! i)
         \<longleftrightarrow> map_of (depthMap s) v = Some i"
    and "\<forall>i<length (depthToNode (depthMap s) (maxDepth s)).
           distinct (depthToNode (depthMap s) (maxDepth s) ! i)"
proof -
  let ?dm = "depthMap s" and ?md = "maxDepth s"
  have dist: "distinct (map fst ?dm)" and bound: "\<And>p. p \<in> set ?dm \<Longrightarrow> snd p \<le> ?md"
    using assms unfolding depInv_def by blast+
  have len: "length (depthToNode ?dm ?md) = ?md + 1"
    by (simp add: depthToNode_def)
  have nth: "depthToNode ?dm ?md ! i = map fst (filter (\<lambda>item. snd item = i) ?dm)"
    if "i \<le> ?md" for i
    using that unfolding depthToNode_def
    by (metis (no_types, lifting) add_0 diff_zero less_Suc_eq_le nth_map_upt Suc_eq_plus1)
  have mem: "(v, i) \<in> set ?dm \<longleftrightarrow> map_of ?dm v = Some i"
    using dist by simp
  show "i < length (depthToNode ?dm ?md) \<and> v \<in> set (depthToNode ?dm ?md ! i)
         \<longleftrightarrow> map_of ?dm v = Some i"
  proof
    assume a: "i < length (depthToNode ?dm ?md) \<and> v \<in> set (depthToNode ?dm ?md ! i)"
    then have "i \<le> ?md"
      using len by simp
    then have "(v, i) \<in> set ?dm"
      using a nth by auto
    then show "map_of ?dm v = Some i"
      using mem by simp
  next
    assume "map_of ?dm v = Some i"
    then have in_dm: "(v, i) \<in> set ?dm"
      using mem by simp
    then have le: "i \<le> ?md"
      using bound by fastforce
    have "v \<in> set (map fst (filter (\<lambda>item. snd item = i) ?dm))"
      using in_dm by force
    then show "i < length (depthToNode ?dm ?md) \<and> v \<in> set (depthToNode ?dm ?md ! i)"
      using le len nth by simp
  qed
  show "\<forall>i<length (depthToNode ?dm ?md). distinct (depthToNode ?dm ?md ! i)"
    using len nth dist by (simp add: distinct_map_filter)
qed

subsection \<open>The layout of a well-formed graph\<close>

text \<open>
  For a well-formed graph \<open>dagLayout\<close> returns. Its result is null exactly when the
  graph has a cycle or a node that no path from the start node reaches; otherwise the
  list at index \<open>i\<close> holds, once each, exactly the nodes whose longest path from the
  start node has \<open>i\<close> edges.
\<close>

theorem dagLayout_correct:
  assumes "wellFormed g"
  shows "\<exists>r. dagLayout g = Some (Inr r)
     \<and> (r = None \<longleftrightarrow>
          \<not> acyclic (edgeRel g) \<or> (\<exists>v\<in>nodeIds g. (start g, v) \<notin> (edgeRel g)\<^sup>*))
     \<and> (\<forall>L. r = Some L \<longrightarrow>
          (\<forall>i v. i < length L \<and> v \<in> set (L ! i) \<longleftrightarrow> longestPath g v i)
          \<and> (\<forall>i<length L. distinct (L ! i)))"
proof -
  have "start g \<in> id_node ` set (nodes g)"
    using assms unfolding wellFormed_def nodeIds_def by simp
  then obtain startNode ns where st: "filter (\<lambda>n. id_node n = start g) (nodes g) = startNode # ns"
    by (cases "filter (\<lambda>n. id_node n = start g) (nodes g)") (auto simp: filter_empty_conv)
  then have "startNode \<in> set (filter (\<lambda>n. id_node n = start g) (nodes g))"
    by simp
  then have sid: "id_node startNode = start g"
    by simp
  from layoutLoop_returns [OF initial_invariants [OF sid]]
  obtain s where s: "layoutLoop g (initialLayout g startNode) = Some s" "proc s = []"
    "cntInv g s" "depInv s" "pathInv g s"
    by blast
  let ?L = "depthToNode (depthMap s) (maxDepth s)"
  have res: "dagLayout g =
      Some (Inr (if card (finished s) \<noteq> length (nodes g) then None else Some ?L))"
    using s(1) by (simp add: dagLayout_def st initialLayout_def)
  show ?thesis
  proof (cases "finished s = nodeIds g")
    case True
    then have c: "card (finished s) = length (nodes g)"
      using all_finished_iff [OF s(3) assms] by simp
    note cd = complete_depths [OF assms s(3,4,5,2) True]
    have "\<forall>i v. i < length ?L \<and> v \<in> set (?L ! i) \<longleftrightarrow> longestPath g v i"
      using depthToNode_levels(1) [OF s(4)] cd(3) by simp
    then show ?thesis
      using res c cd(1,2) depthToNode_levels(2) [OF s(4)] by auto
  next
    case False
    then have c: "card (finished s) \<noteq> length (nodes g)"
      using all_finished_iff [OF s(3) assms] by simp
    have "\<not> acyclic (edgeRel g) \<or> (\<exists>v\<in>nodeIds g. (start g, v) \<notin> (edgeRel g)\<^sup>*)"
      using assms s(3,2) False by (rule incomplete_cause)
    then show ?thesis
      using res c by auto
  qed
qed

section \<open>Layered layout\<close>

lemmas layout_defs = dagLayout_def layoutLoop.simps layoutStep_def getOutEdges_def
  passedConditions_def depthToNode_def mkGraph_def mkEdge_def mkNode_def

text \<open>The two graphs of the specification: a diamond, and a cycle behind the start node.\<close>

lemma dagLayout_diamond:
  "dagLayout (mkGraph [''start'', ''A'', ''B'', ''C'']
      [mkEdge ''start'' ''A'' [], mkEdge ''start'' ''B'' [],
       mkEdge ''A'' ''C'' [], mkEdge ''B'' ''C'' []])
   = Some (Inr (Some [[''start''], [''A'', ''B''], [''C'']]))"
  by (simp add: layout_defs)

lemma dagLayout_cycle:
  "dagLayout (mkGraph [''start'', ''A'', ''B'']
      [mkEdge ''start'' ''A'' [], mkEdge ''A'' ''B'' [], mkEdge ''B'' ''A'' []])
   = Some (Inr None)"
  by (simp add: layout_defs)

text \<open>
  C8. \<open>dagLayout\<close> is meant to return null exactly when the graph has a cycle reachable
  from the start node. It returns null whenever some node is not finished, which also
  happens for a node that no path from the start reaches: the graph with the nodes
  \<open>start\<close> and \<open>x\<close> and no edge at all has an empty edge relation, hence no cycle, and
  its layout is null; with the edge from \<open>start\<close> to \<open>x\<close> it is laid out.
\<close>

theorem C8_unreachable_node_gives_null:
  "dagLayout (mkGraph [''start'', ''x''] []) = Some (Inr None)
   \<and> edgeRel (mkGraph [''start'', ''x''] []) = {}
   \<and> dagLayout (mkGraph [''start'', ''x''] [mkEdge ''start'' ''x'' []])
       = Some (Inr (Some [[''start''], [''x'']]))"
  by (simp add: layout_defs edgeRel_def)

end
